theory Spec2Isabelle
  imports Main
begin

section \<open>The problem interface\<close>

text \<open>
  \<^verbatim>\<open>SearchProblem\<close> is an abstract class with four methods. A problem instance is a
  record holding one value per method. States and actions are opaque type parameters;
  step costs, accumulated costs and heuristic values are Python numbers, modelled as
  unbounded integers (negative values are representable, the searches do not check them).
  A successor triple is \<open>(successor, action, stepCost)\<close>.
\<close>

record ('s, 'a) problem =
  getStartState :: 's
  isGoalState :: "'s \<Rightarrow> bool"
  getSuccessors :: "'s \<Rightarrow> ('s \<times> 'a \<times> int) list"
  getCostOfActions :: "'a list \<Rightarrow> int"

text \<open>\<^verbatim>\<open>nullHeuristic\<close> (lines 156 to 161), the default heuristic of \<^verbatim>\<open>aStarSearch\<close>.\<close>

definition nullHeuristic :: "'s \<Rightarrow> ('s, 'a) problem \<Rightarrow> int" where
  "nullHeuristic state problem = 0"

section \<open>Frontier containers\<close>

text \<open>
  \<^verbatim>\<open>search.py\<close> imports the module \<^verbatim>\<open>util\<close> for its three containers; that module is
  not among the sources, so the containers follow the ordering contracts that the
  specification gives for them. Each container is a list. Removing from an empty
  container is the one fault a container can signal.
\<close>

datatype error = IndexError

text \<open>Modelled from the spec: \<^verbatim>\<open>util.Stack.push\<close> is missing from the sources; the stack
  keeps the most recently inserted item at the head.\<close>

definition stack_push :: "'x \<Rightarrow> 'x list \<Rightarrow> 'x list" where
  "stack_push x s = x # s"

text \<open>Modelled from the spec: \<^verbatim>\<open>util.Stack.isEmpty\<close> is missing from the sources.\<close>

definition stack_isEmpty :: "'x list \<Rightarrow> bool" where
  "stack_isEmpty s = (case s of [] \<Rightarrow> True | _ # _ \<Rightarrow> False)"

text \<open>Modelled from the spec: \<^verbatim>\<open>util.Stack.pop\<close> is missing from the sources; it removes
  and returns the most recently inserted item (LIFO).\<close>

definition stack_pop :: "'x list \<Rightarrow> error + 'x \<times> 'x list" where
  "stack_pop s = (case s of [] \<Rightarrow> Inl IndexError | x # r \<Rightarrow> Inr (x, r))"

text \<open>Modelled from the spec: \<^verbatim>\<open>util.Queue.push\<close> is missing from the sources; the queue
  keeps its items in insertion order, earliest first.\<close>

definition queue_push :: "'x \<Rightarrow> 'x list \<Rightarrow> 'x list" where
  "queue_push x q = q @ [x]"

text \<open>Modelled from the spec: \<^verbatim>\<open>util.Queue.isEmpty\<close> is missing from the sources.\<close>

definition queue_isEmpty :: "'x list \<Rightarrow> bool" where
  "queue_isEmpty q = (case q of [] \<Rightarrow> True | _ # _ \<Rightarrow> False)"

text \<open>Modelled from the spec: \<^verbatim>\<open>util.Queue.pop\<close> is missing from the sources; it removes
  and returns the earliest inserted item (FIFO).\<close>

definition queue_pop :: "'x list \<Rightarrow> error + 'x \<times> 'x list" where
  "queue_pop q = (case q of [] \<Rightarrow> Inl IndexError | x # r \<Rightarrow> Inr (x, r))"

text \<open>Modelled from the spec: \<^verbatim>\<open>util.PriorityQueue.push\<close> is missing from the sources; the
  queue keeps pairs \<open>(priority, item)\<close> in insertion order.\<close>

definition pq_push :: "'x \<Rightarrow> int \<Rightarrow> (int \<times> 'x) list \<Rightarrow> (int \<times> 'x) list" where
  "pq_push item priority q = q @ [(priority, item)]"

text \<open>Modelled from the spec: \<^verbatim>\<open>util.PriorityQueue.isEmpty\<close> is missing from the sources.\<close>

definition pq_isEmpty :: "(int \<times> 'x) list \<Rightarrow> bool" where
  "pq_isEmpty q = (case q of [] \<Rightarrow> True | _ # _ \<Rightarrow> False)"

text \<open>Modelled from the spec: the selection rule of \<^verbatim>\<open>util.PriorityQueue.pop\<close>, which is
  missing from the sources. \<open>pq_first_min x xs\<close> takes the first pair of smallest priority
  out of \<open>x # xs\<close> (ties go to the earlier insertion) and keeps the others in their
  order.\<close>

fun pq_first_min :: "int \<times> 'x \<Rightarrow> (int \<times> 'x) list \<Rightarrow> (int \<times> 'x) \<times> (int \<times> 'x) list" where
  "pq_first_min x [] = (x, [])"
| "pq_first_min x (y # ys) =
     (case pq_first_min y ys of (m, rest) \<Rightarrow>
        if fst x \<le> fst m then (x, y # ys) else (m, x # rest))"

text \<open>Modelled from the spec: \<^verbatim>\<open>util.PriorityQueue.pop\<close> is missing from the sources; it
  removes and returns the item of smallest priority.\<close>

definition pq_pop :: "(int \<times> 'x) list \<Rightarrow> error + 'x \<times> (int \<times> 'x) list" where
  "pq_pop q = (case q of [] \<Rightarrow> Inl IndexError
               | x # xs \<Rightarrow> (case pq_first_min x xs of (m, rest) \<Rightarrow> Inr (snd m, rest)))"

section \<open>The while loop\<close>

text \<open>
  Every search is one \<^verbatim>\<open>while not frontier.isEmpty()\<close> loop over local variables. One
  pass of the loop either leaves the function (\<open>Stop\<close>, with what it returns) or hands
  the updated variables to the next pass (\<open>Next\<close>). The loop may run forever, so its
  value is an option: \<open>None\<close> means that it never returns.
\<close>

datatype ('r, 'c) step = Stop 'r | Next 'c

partial_function (option) while_loop :: "('c \<Rightarrow> ('r, 'c) step) \<Rightarrow> 'c \<Rightarrow> 'r option" where
  "while_loop body c = (case body c of Stop r \<Rightarrow> Some r | Next c' \<Rightarrow> while_loop body c')"

declare while_loop.simps [code]

text \<open>\<open>loop_state body n c\<close> is the value of the variables after \<open>n\<close> full passes
  started from \<open>c\<close>, when the loop makes that many.\<close>

fun loop_state :: "('c \<Rightarrow> ('r, 'c) step) \<Rightarrow> nat \<Rightarrow> 'c \<Rightarrow> 'c option" where
  "loop_state body 0 c = Some c"
| "loop_state body (Suc n) c =
     (case body c of Stop r \<Rightarrow> None | Next c' \<Rightarrow> loop_state body n c')"

text \<open>What a search hands back: a fault raised inside the engine, or the returned
  action sequence.\<close>

datatype 'a result = Raise error | Return "'a list"

section \<open>Depth-first and breadth-first search\<close>

text \<open>
  The loop variables are \<open>(frontier, visited, expanded)\<close>. The third one is a ghost
  variable: it lists, in order, the states on which \<^verbatim>\<open>getSuccessors\<close> has been called;
  the code never reads it.
\<close>

type_synonym ('s, 'a) uninformed_vars = "('s \<times> 'a list) list \<times> 's set \<times> 's list"

text \<open>
  One pass of the loop of \<^verbatim>\<open>depthFirstSearch\<close> (lines 98 to 108): the emptiness test of
  the \<^verbatim>\<open>while\<close>, the pop, the goal test that returns the path, and the expansion of a
  state that is not yet in \<^verbatim>\<open>visited\<close>. The \<^verbatim>\<open>for\<close> loop over the successor triples is
  a fold; the step cost of a triple is not used. An exhausted frontier leaves the loop
  and reaches the final \<^verbatim>\<open>return []\<close> (line 110).
\<close>

definition dfs_iteration ::
  "('s, 'a) problem \<Rightarrow> ('s, 'a) uninformed_vars \<Rightarrow>
     ('a result \<times> 's list, ('s, 'a) uninformed_vars) step" where
  "dfs_iteration problem = (\<lambda>(frontier, visited, expanded).
     if stack_isEmpty frontier then Stop (Return [], expanded)
     else case stack_pop frontier of
       Inl e \<Rightarrow> Stop (Raise e, expanded)
     | Inr ((currentState, path), frontier') \<Rightarrow>
         if isGoalState problem currentState then Stop (Return path, expanded)
         else if currentState \<notin> visited then
           Next (fold (\<lambda>(nextState, action, _). stack_push (nextState, path @ [action]))
                   (getSuccessors problem currentState) frontier',
                 insert currentState visited, expanded @ [currentState])
         else Next (frontier', visited, expanded))"

text \<open>Lines 94 to 96: a stack holding the start state with the empty path, and the
  empty set.\<close>

definition dfs_init :: "('s, 'a) problem \<Rightarrow> ('s, 'a) uninformed_vars" where
  "dfs_init problem = (stack_push (getStartState problem, []) [], {}, [])"

definition dfs_run :: "('s, 'a) problem \<Rightarrow> ('a result \<times> 's list) option" where
  "dfs_run problem = while_loop (dfs_iteration problem) (dfs_init problem)"

definition depthFirstSearch :: "('s, 'a) problem \<Rightarrow> 'a result option" where
  "depthFirstSearch problem = map_option fst (dfs_run problem)"

text \<open>\<^verbatim>\<open>breadthFirstSearch\<close> (lines 115 to 131) is the same code over a queue.\<close>

definition bfs_iteration ::
  "('s, 'a) problem \<Rightarrow> ('s, 'a) uninformed_vars \<Rightarrow>
     ('a result \<times> 's list, ('s, 'a) uninformed_vars) step" where
  "bfs_iteration problem = (\<lambda>(frontier, visited, expanded).
     if queue_isEmpty frontier then Stop (Return [], expanded)
     else case queue_pop frontier of
       Inl e \<Rightarrow> Stop (Raise e, expanded)
     | Inr ((currentState, path), frontier') \<Rightarrow>
         if isGoalState problem currentState then Stop (Return path, expanded)
         else if currentState \<notin> visited then
           Next (fold (\<lambda>(nextState, action, _). queue_push (nextState, path @ [action]))
                   (getSuccessors problem currentState) frontier',
                 insert currentState visited, expanded @ [currentState])
         else Next (frontier', visited, expanded))"

definition bfs_init :: "('s, 'a) problem \<Rightarrow> ('s, 'a) uninformed_vars" where
  "bfs_init problem = (queue_push (getStartState problem, []) [], {}, [])"

definition bfs_run :: "('s, 'a) problem \<Rightarrow> ('a result \<times> 's list) option" where
  "bfs_run problem = while_loop (bfs_iteration problem) (bfs_init problem)"

definition breadthFirstSearch :: "('s, 'a) problem \<Rightarrow> 'a result option" where
  "breadthFirstSearch problem = map_option fst (bfs_run problem)"

section \<open>Uniform-cost search and A*\<close>

text \<open>
  The loop variables are \<open>(frontier, visited, expanded)\<close>: a priority queue of entries
  \<open>(state, path, cost)\<close>, the dictionary of best recorded costs, and the ghost list of
  the pairs \<open>(state, cost)\<close> at which \<^verbatim>\<open>getSuccessors\<close> has been called. The test
  \<^verbatim>\<open>s not in visited or c < visited[s]\<close> reads the dictionary only when the key is
  present.
\<close>

type_synonym ('s, 'a) informed_vars =
  "(int \<times> 's \<times> 'a list \<times> int) list \<times> ('s \<rightharpoonup> int) \<times> ('s \<times> int) list"

text \<open>The test \<^verbatim>\<open>state not in visited or cost < visited[state]\<close> of lines 146, 151, 177
  and 183.\<close>

definition cheaper :: "('s \<rightharpoonup> int) \<Rightarrow> 's \<Rightarrow> int \<Rightarrow> bool" where
  "cheaper visited state cost =
     (case visited state of None \<Rightarrow> True | Some recorded \<Rightarrow> cost < recorded)"

text \<open>
  One pass of the loop of \<^verbatim>\<open>uniformCostSearch\<close> (lines 140 to 152). The dictionary is
  updated before the successors are looked at, so the inner test of line 151 reads the
  updated dictionary. An exhausted frontier reaches \<^verbatim>\<open>return []\<close> (line 154).
\<close>

definition ucs_iteration ::
  "('s, 'a) problem \<Rightarrow> ('s, 'a) informed_vars \<Rightarrow>
     ('a result \<times> ('s \<times> int) list, ('s, 'a) informed_vars) step" where
  "ucs_iteration problem = (\<lambda>(frontier, visited, expanded).
     if pq_isEmpty frontier then Stop (Return [], expanded)
     else case pq_pop frontier of
       Inl e \<Rightarrow> Stop (Raise e, expanded)
     | Inr ((currentState, path, currentCost), frontier') \<Rightarrow>
         if isGoalState problem currentState then Stop (Return path, expanded)
         else if cheaper visited currentState currentCost then
           (let visited' = visited(currentState \<mapsto> currentCost) in
            Next (fold (\<lambda>(nextState, action, cost) fr.
                          (let newCost = currentCost + cost in
                           if cheaper visited' nextState newCost
                           then pq_push (nextState, path @ [action], newCost) newCost fr
                           else fr))
                    (getSuccessors problem currentState) frontier',
                  visited', expanded @ [(currentState, currentCost)]))
         else Next (frontier', visited, expanded))"

text \<open>Lines 136 to 138: the start entry \<open>(start, [], 0)\<close> with priority 0, and the empty
  dictionary.\<close>

definition ucs_init :: "('s, 'a) problem \<Rightarrow> ('s, 'a) informed_vars" where
  "ucs_init problem = (pq_push (getStartState problem, [], 0) 0 [], Map.empty, [])"

definition ucs_run :: "('s, 'a) problem \<Rightarrow> ('a result \<times> ('s \<times> int) list) option" where
  "ucs_run problem = while_loop (ucs_iteration problem) (ucs_init problem)"

definition uniformCostSearch :: "('s, 'a) problem \<Rightarrow> 'a result option" where
  "uniformCostSearch problem = map_option fst (ucs_run problem)"

text \<open>
  One pass of the loop of \<^verbatim>\<open>aStarSearch\<close> (lines 171 to 184): as above, with the
  priority \<^verbatim>\<open>newCost + heuristic(nextState, problem)\<close>.
\<close>

definition astar_iteration ::
  "('s, 'a) problem \<Rightarrow> ('s \<Rightarrow> ('s, 'a) problem \<Rightarrow> int) \<Rightarrow> ('s, 'a) informed_vars \<Rightarrow>
     ('a result \<times> ('s \<times> int) list, ('s, 'a) informed_vars) step" where
  "astar_iteration problem heuristic = (\<lambda>(frontier, visited, expanded).
     if pq_isEmpty frontier then Stop (Return [], expanded)
     else case pq_pop frontier of
       Inl e \<Rightarrow> Stop (Raise e, expanded)
     | Inr ((currentState, path, currentCost), frontier') \<Rightarrow>
         if isGoalState problem currentState then Stop (Return path, expanded)
         else if cheaper visited currentState currentCost then
           (let visited' = visited(currentState \<mapsto> currentCost) in
            Next (fold (\<lambda>(nextState, action, cost) fr.
                          (let newCost = currentCost + cost;
                               priority = newCost + heuristic nextState problem in
                           if cheaper visited' nextState newCost
                           then pq_push (nextState, path @ [action], newCost) priority fr
                           else fr))
                    (getSuccessors problem currentState) frontier',
                  visited', expanded @ [(currentState, currentCost)]))
         else Next (frontier', visited, expanded))"

text \<open>Lines 166 to 169: the start entry has priority \<^verbatim>\<open>0 + heuristic(startState, problem)\<close>.\<close>

definition astar_init ::
  "('s, 'a) problem \<Rightarrow> ('s \<Rightarrow> ('s, 'a) problem \<Rightarrow> int) \<Rightarrow> ('s, 'a) informed_vars" where
  "astar_init problem heuristic =
     (let startState = getStartState problem in
      (pq_push (startState, [], 0) (0 + heuristic startState problem) [], Map.empty, []))"

definition astar_run ::
  "('s, 'a) problem \<Rightarrow> ('s \<Rightarrow> ('s, 'a) problem \<Rightarrow> int) \<Rightarrow>
     ('a result \<times> ('s \<times> int) list) option" where
  "astar_run problem heuristic =
     while_loop (astar_iteration problem heuristic) (astar_init problem heuristic)"

definition aStarSearch ::
  "('s, 'a) problem \<Rightarrow> ('s \<Rightarrow> ('s, 'a) problem \<Rightarrow> int) \<Rightarrow> 'a result option" where
  "aStarSearch problem heuristic = map_option fst (astar_run problem heuristic)"

section \<open>Trajectories, plans and costs\<close>

text \<open>
  The vocabulary of the properties: trajectories through the successor relation, the
  states they reach, and what it means for a plan to be valid and for a cost to be
  minimal.
\<close>

text \<open>A trajectory is a list of successor triples. \<open>legal problem s tr\<close>: every triple of
  \<open>tr\<close> is among the successors of the state reached so far, starting from \<open>s\<close>.\<close>

fun legal :: "('s, 'a) problem \<Rightarrow> 's \<Rightarrow> ('s \<times> 'a \<times> int) list \<Rightarrow> bool" where
  "legal problem s [] = True"
| "legal problem s (e # es) = (e \<in> set (getSuccessors problem s) \<and> legal problem (fst e) es)"

text \<open>The state a trajectory from \<open>s\<close> ends in.\<close>

fun endState :: "'s \<Rightarrow> ('s \<times> 'a \<times> int) list \<Rightarrow> 's" where
  "endState s [] = s"
| "endState s (e # es) = endState (fst e) es"

definition actionsOf :: "('s \<times> 'a \<times> int) list \<Rightarrow> 'a list" where
  "actionsOf tr = map (\<lambda>(s, a, c). a) tr"

definition costOf :: "('s \<times> 'a \<times> int) list \<Rightarrow> int" where
  "costOf tr = sum_list (map (\<lambda>(s, a, c). c) tr)"

text \<open>The state space reachable from the start state.\<close>

definition reachable :: "('s, 'a) problem \<Rightarrow> 's set" where
  "reachable problem = {s. \<exists>tr. legal problem (getStartState problem) tr \<and> endState (getStartState problem) tr = s}"

text \<open>\<open>traced problem s path g\<close>: the action sequence \<open>path\<close> labels a legal trajectory from
  the start state to \<open>s\<close> whose step costs add up to \<open>g\<close>.\<close>

definition traced :: "('s, 'a) problem \<Rightarrow> 's \<Rightarrow> 'a list \<Rightarrow> int \<Rightarrow> bool" where
  "traced problem s path g =
     (\<exists>tr. legal problem (getStartState problem) tr \<and> endState (getStartState problem) tr = s \<and>
           actionsOf tr = path \<and> costOf tr = g)"

definition nonneg_costs :: "('s, 'a) problem \<Rightarrow> bool" where
  "nonneg_costs problem = (\<forall>s. \<forall>(n, a, w) \<in> set (getSuccessors problem s). 0 \<le> w)"

definition goal_path :: "('s, 'a) problem \<Rightarrow> 's \<Rightarrow> ('s \<times> 'a \<times> int) list \<Rightarrow> bool" where
  "goal_path problem s tr = (legal problem s tr \<and> isGoalState problem (endState s tr))"

text \<open>Replaying an action sequence from a state: at each step follow the successor triple
  that carries the action; \<open>None\<close> when no triple carries it.\<close>

fun replay :: "('s, 'a) problem \<Rightarrow> 's \<Rightarrow> 'a list \<Rightarrow> 's option" where
  "replay problem s [] = Some s"
| "replay problem s (a # as) =
     (case find (\<lambda>(n, b, w). b = a) (getSuccessors problem s) of
        None \<Rightarrow> None
      | Some (n, b, w) \<Rightarrow> replay problem n as)"

text \<open>A well-behaved problem source: in every state, each action is carried by at most one
  successor triple, so that an action sequence determines the states it passes.\<close>

definition deterministic_actions :: "('s, 'a) problem \<Rightarrow> bool" where
  "deterministic_actions problem =
     (\<forall>s. distinct (map (\<lambda>(n, a, w). a) (getSuccessors problem s)))"

definition goal_reachable :: "('s, 'a) problem \<Rightarrow> bool" where
  "goal_reachable problem = (\<exists>s \<in> reachable problem. isGoalState problem s)"

text \<open>What the returned action sequence has to satisfy: a non-empty one replays to a goal
  state; an empty one means that the start state is a goal or that no goal is reachable.\<close>

definition valid_plan :: "('s, 'a) problem \<Rightarrow> 'a list \<Rightarrow> bool" where
  "valid_plan problem path =
     (if path = [] then isGoalState problem (getStartState problem) \<or> \<not> goal_reachable problem
      else case replay problem (getStartState problem) path of
             None \<Rightarrow> False | Some s \<Rightarrow> isGoalState problem s)"

text \<open>The contract of \<^verbatim>\<open>getCostOfActions\<close> (abstract in \<^verbatim>\<open>SearchProblem\<close>): on a sequence of
  legal moves from the start state it returns the total of their step costs.\<close>

definition cost_contract :: "('s, 'a) problem \<Rightarrow> bool" where
  "cost_contract problem =
     (\<forall>tr. legal problem (getStartState problem) tr \<longrightarrow>
           getCostOfActions problem (actionsOf tr) = costOf tr)"

text \<open>\<open>c\<close> is the minimum cost of a trajectory from the start state to a goal state.\<close>

definition min_cost :: "('s, 'a) problem \<Rightarrow> int \<Rightarrow> bool" where
  "min_cost problem c =
     ((\<exists>tr. goal_path problem (getStartState problem) tr \<and> costOf tr = c) \<and>
      (\<forall>tr. goal_path problem (getStartState problem) tr \<longrightarrow> c \<le> costOf tr))"

text \<open>The heuristic contract: a heuristic returns a number \<open>\<ge> 0\<close>.\<close>

definition heuristic_contract ::
  "('s, 'a) problem \<Rightarrow> ('s \<Rightarrow> ('s, 'a) problem \<Rightarrow> int) \<Rightarrow> bool" where
  "heuristic_contract problem heuristic = (\<forall>s. 0 \<le> heuristic s problem)"

text \<open>An admissible heuristic never exceeds the cost of a trajectory to a goal.\<close>

definition admissible :: "('s, 'a) problem \<Rightarrow> ('s \<Rightarrow> ('s, 'a) problem \<Rightarrow> int) \<Rightarrow> bool" where
  "admissible problem heuristic =
     (\<forall>s tr. goal_path problem s tr \<longrightarrow> heuristic s problem \<le> costOf tr)"

text \<open>A consistent heuristic: along every edge, \<open>h(s) \<le> stepCost + h(successor)\<close>.\<close>

definition consistent :: "('s, 'a) problem \<Rightarrow> ('s \<Rightarrow> ('s, 'a) problem \<Rightarrow> int) \<Rightarrow> bool" where
  "consistent problem heuristic =
     (\<forall>s. \<forall>(n, a, w) \<in> set (getSuccessors problem s).
        heuristic s problem \<le> w + heuristic n problem)"

text \<open>\<^verbatim>\<open>getCostOfActions\<close> of a returned action sequence.\<close>

definition resultCost :: "('s, 'a) problem \<Rightarrow> 'a result \<Rightarrow> int option" where
  "resultCost problem r =
     (case r of Return path \<Rightarrow> Some (getCostOfActions problem path) | Raise e \<Rightarrow> None)"

text \<open>A list of expansions \<open>(state, cost)\<close>, most recent first, is relaxing when each
  expansion of a state costs strictly less than the most recent earlier expansion of
  that state, hence less than all of them.\<close>

fun relaxing :: "('s \<times> int) list \<Rightarrow> bool" where
  "relaxing [] = True"
| "relaxing ((s, g) # older) =
     (relaxing older \<and> (case map_of older s of None \<Rightarrow> True | Some recorded \<Rightarrow> g < recorded))"

section \<open>Invariants of the loops\<close>

text \<open>
  The definitions used in the proofs: what one pass does, in terms of sets, and what
  holds of the loop variables at every pass.
\<close>

text \<open>What a pass of depth-first or breadth-first search that does not return does to
  the variables.\<close>

definition uninformed_next ::
  "('s, 'a) problem \<Rightarrow> ('s, 'a) uninformed_vars \<Rightarrow> ('s, 'a) uninformed_vars \<Rightarrow> bool" where
  "uninformed_next problem c c' =
     (case c of (fr, vis, ex) \<Rightarrow> case c' of (fr', vis', ex') \<Rightarrow>
        \<exists>cur path rest. fr = (cur, path) # rest \<and>
          \<not> isGoalState problem cur \<and>
          (if cur \<in> vis then fr' = rest \<and> vis' = vis \<and> ex' = ex
           else set fr' = set rest \<union> (\<lambda>(n, a, w). (n, path @ [a])) ` set (getSuccessors problem cur) \<and>
                vis' = insert cur vis \<and> ex' = ex @ [cur]))"

text \<open>When a pass of depth-first or breadth-first search returns, and what.\<close>

definition uninformed_stop ::
  "('s, 'a) problem \<Rightarrow> ('s, 'a) uninformed_vars \<Rightarrow> 'a result \<times> 's list \<Rightarrow> bool" where
  "uninformed_stop problem c x =
     (case c of (fr, vis, ex) \<Rightarrow> case x of (r, ex') \<Rightarrow>
        ex' = ex \<and> ((fr = [] \<and> r = Return []) \<or>
           (\<exists>cur path. (cur, path) \<in> set fr \<and> isGoalState problem cur \<and> r = Return path)))"

text \<open>The invariant of the uninformed loops: frontier paths are traced; the start state is
  visited or on the frontier; a visited state is no goal, is reachable, and has all its
  successors visited or on the frontier; the expansion log lists the visited states
  without repetition.\<close>

definition uninformed_inv :: "('s, 'a) problem \<Rightarrow> ('s, 'a) uninformed_vars \<Rightarrow> bool" where
  "uninformed_inv problem c =
     (case c of (fr, vis, ex) \<Rightarrow>
        (\<forall>(s, path) \<in> set fr. \<exists>g. traced problem s path g) \<and>
        (getStartState problem \<in> vis \<or> getStartState problem \<in> fst ` set fr) \<and>
        (\<forall>s \<in> vis. \<not> isGoalState problem s \<and> s \<in> reachable problem \<and>
           (\<forall>e \<in> set (getSuccessors problem s). fst e \<in> vis \<or> fst e \<in> fst ` set fr)) \<and>
        set ex = vis \<and> distinct ex)"

text \<open>The order in which the variables of the uninformed loops decrease.\<close>

definition uninformed_order :: "('s, 'a) problem \<Rightarrow> (('s, 'a) uninformed_vars \<times> ('s, 'a) uninformed_vars) set" where
  "uninformed_order problem =
     inv_image (less_than <*lex*> less_than)
       (\<lambda>(fr, vis, ex). (card (reachable problem - vis), length fr))"

text \<open>The frontier entries that an expansion at cost \<open>g\<close> inserts.\<close>

definition pushed ::
  "('s, 'a) problem \<Rightarrow> ('s \<Rightarrow> ('s, 'a) problem \<Rightarrow> int) \<Rightarrow> ('s \<rightharpoonup> int) \<Rightarrow> 'a list \<Rightarrow> int \<Rightarrow>
     ('s \<times> 'a \<times> int) list \<Rightarrow> (int \<times> 's \<times> 'a list \<times> int) set" where
  "pushed problem heuristic vis path g succs =
     {(g + w + heuristic n problem, n, path @ [a], g + w) | n a w.
        (n, a, w) \<in> set succs \<and> cheaper vis n (g + w)}"

text \<open>What a pass of A* that does not return does to the variables.\<close>

definition informed_next ::
  "('s, 'a) problem \<Rightarrow> ('s \<Rightarrow> ('s, 'a) problem \<Rightarrow> int) \<Rightarrow>
     ('s, 'a) informed_vars \<Rightarrow> ('s, 'a) informed_vars \<Rightarrow> bool" where
  "informed_next problem heuristic c c' =
     (case c of (fr, vis, ex) \<Rightarrow> case c' of (fr', vis', ex') \<Rightarrow>
        \<exists>pri cur path g rest.
          set fr = insert (pri, cur, path, g) (set rest) \<and> length fr = Suc (length rest) \<and>
          (\<forall>e \<in> set fr. pri \<le> fst e) \<and> \<not> isGoalState problem cur \<and>
          (if cheaper vis cur g
           then vis' = vis(cur \<mapsto> g) \<and> ex' = ex @ [(cur, g)] \<and>
                set fr' = set rest \<union> pushed problem heuristic vis' path g (getSuccessors problem cur)
           else fr' = rest \<and> vis' = vis \<and> ex' = ex))"

text \<open>When a pass of A* returns, and what.\<close>

definition informed_stop ::
  "('s, 'a) problem \<Rightarrow> ('s, 'a) informed_vars \<Rightarrow> 'a result \<times> ('s \<times> int) list \<Rightarrow> bool" where
  "informed_stop problem c x =
     (case c of (fr, vis, ex) \<Rightarrow> case x of (r, ex') \<Rightarrow>
        ex' = ex \<and> ((fr = [] \<and> r = Return []) \<or>
           (\<exists>pri cur path g. (pri, cur, path, g) \<in> set fr \<and> (\<forall>e \<in> set fr. pri \<le> fst e) \<and>
              isGoalState problem cur \<and> r = Return path)))"

definition frontier_states :: "(int \<times> 's \<times> 'a list \<times> int) list \<Rightarrow> 's set" where
  "frontier_states fr = (\<lambda>(pri, s, path, g). s) ` set fr"

text \<open>The invariant of the cost-aware loops: a frontier entry carries its priority and a
  traced path of its cost; the start state is recorded or on the frontier; a recorded
  state is no goal, its recorded cost is the cost of a traced path, and its successors
  are recorded or on the frontier.\<close>

definition informed_inv ::
  "('s, 'a) problem \<Rightarrow> ('s \<Rightarrow> ('s, 'a) problem \<Rightarrow> int) \<Rightarrow> ('s, 'a) informed_vars \<Rightarrow> bool" where
  "informed_inv problem heuristic c =
     (case c of (fr, vis, ex) \<Rightarrow>
        (\<forall>(pri, s, path, g) \<in> set fr. pri = g + heuristic s problem \<and> traced problem s path g) \<and>
        (getStartState problem \<in> dom vis \<or> getStartState problem \<in> frontier_states fr) \<and>
        (\<forall>s v. vis s = Some v \<longrightarrow> \<not> isGoalState problem s \<and> (\<exists>path. traced problem s path v) \<and>
           (\<forall>e \<in> set (getSuccessors problem s). fst e \<in> dom vis \<or> fst e \<in> frontier_states fr)))"

text \<open>The order in which the variables of the cost-aware loops decrease: unrecorded
  reachable states, then the sum of the recorded costs, then the frontier length.\<close>

definition informed_order ::
  "('s, 'a) problem \<Rightarrow> (('s, 'a) informed_vars \<times> ('s, 'a) informed_vars) set" where
  "informed_order problem =
     inv_image (less_than <*lex*> less_than <*lex*> less_than)
       (\<lambda>(fr, vis, ex). (card (reachable problem - dom vis),
                          (\<Sum>s \<in> dom vis. nat (the (vis s))), length fr))"

text \<open>A trajectory is closer than \<open>(c, l)\<close> when it is cheaper than \<open>c\<close>, or as cheap
  and shorter than \<open>l\<close>.\<close>

definition closer :: "('s \<times> 'a \<times> int) list \<Rightarrow> int \<Rightarrow> nat \<Rightarrow> bool" where
  "closer tr c l = (costOf tr < c \<or> (costOf tr = c \<and> length tr < l))"

text \<open>A best trajectory from \<open>s\<close> to a goal: cheapest, and shortest among the cheapest.\<close>

definition best :: "('s, 'a) problem \<Rightarrow> 's \<Rightarrow> ('s \<times> 'a \<times> int) list \<Rightarrow> bool" where
  "best problem s tr =
     (goal_path problem s tr \<and>
      (\<forall>tr'. goal_path problem s tr' \<longrightarrow> \<not> closer tr' (costOf tr) (length tr)))"

text \<open>Some frontier entry can still reach a goal within the budget \<open>B\<close>, along a best
  trajectory closer than \<open>(c, l)\<close>.\<close>

definition cov ::
  "('s, 'a) problem \<Rightarrow> (int \<times> 's \<times> 'a list \<times> int) list \<Rightarrow> int \<Rightarrow> int \<Rightarrow> nat \<Rightarrow> bool" where
  "cov problem fr B c l =
     (\<exists>pri s path g tr. (pri, s, path, g) \<in> set fr \<and> best problem s tr \<and>
        g + costOf tr \<le> B \<and> closer tr c l)"

text \<open>Every recorded state is covered by a frontier entry that is strictly closer to a
  goal and within the budget of the recorded cost.\<close>

definition covers_visited ::
  "('s, 'a) problem \<Rightarrow> (int \<times> 's \<times> 'a list \<times> int) list \<Rightarrow> ('s \<rightharpoonup> int) \<Rightarrow> bool" where
  "covers_visited problem fr vis =
     (\<forall>t v tr. vis t = Some v \<longrightarrow> best problem t tr \<longrightarrow>
        cov problem fr (v + costOf tr) (costOf tr) (length tr))"

text \<open>The optimality invariant of the cost-aware loops.\<close>

definition opt_inv ::
  "('s, 'a) problem \<Rightarrow> ('s, 'a) informed_vars \<Rightarrow> bool" where
  "opt_inv problem c =
     (case c of (fr, vis, ex) \<Rightarrow>
        covers_visited problem fr vis \<and>
        (\<forall>tr. best problem (getStartState problem) tr \<longrightarrow>
           cov problem fr (costOf tr) (costOf tr) (Suc (length tr))))"

text \<open>The dictionary holds the cost of the latest expansion of each state, and the
  expansion log is relaxing.\<close>

definition log_inv :: "('s, 'a) informed_vars \<Rightarrow> bool" where
  "log_inv c = (case c of (fr, vis, ex) \<Rightarrow> vis = map_of (rev ex) \<and> relaxing (rev ex))"

section \<open>Example problems\<close>

text \<open>
  Small problems on which the properties are instantiated.
\<close>

datatype node = Src | Via | Alt | Dst

datatype move = ToVia | ToAlt | ToDst | Back

text \<open>The cost of an action sequence, by replaying it.\<close>

fun plan_cost :: "('s \<Rightarrow> ('s \<times> 'a \<times> int) list) \<Rightarrow> 's \<Rightarrow> 'a list \<Rightarrow> int" where
  "plan_cost succs s [] = 0"
| "plan_cost succs s (a # as) =
     (case find (\<lambda>(n, b, w). b = a) (succs s) of
        None \<Rightarrow> 0
      | Some (n, b, w) \<Rightarrow> w + plan_cost succs n as)"

text \<open>A graph with a cycle: \<open>Src \<rightarrow> Via\<close> (cost 1), \<open>Src \<rightarrow> Alt\<close> (2),
  \<open>Via \<rightarrow> Dst\<close> (5), \<open>Via \<rightarrow> Src\<close> (0), \<open>Alt \<rightarrow> Dst\<close> (1). The goal of \<open>demo\<close> is
  \<open>Dst\<close>.\<close>

fun demo_successors :: "node \<Rightarrow> (node \<times> move \<times> int) list" where
  "demo_successors Src = [(Via, ToVia, 1), (Alt, ToAlt, 2)]"
| "demo_successors Via = [(Dst, ToDst, 5), (Src, Back, 0)]"
| "demo_successors Alt = [(Dst, ToDst, 1)]"
| "demo_successors Dst = []"

definition demo :: "(node, move) problem" where
  "demo = \<lparr>getStartState = Src, isGoalState = (\<lambda>s. s = Dst), getSuccessors = demo_successors,
           getCostOfActions = plan_cost demo_successors Src\<rparr>"

fun demo_heuristic :: "node \<Rightarrow> (node, move) problem \<Rightarrow> int" where
  "demo_heuristic Src problem = 3"
| "demo_heuristic Via problem = 3"
| "demo_heuristic Alt problem = 1"
| "demo_heuristic Dst problem = 0"

text \<open>The same graph without a goal state.\<close>

definition no_goal :: "(node, move) problem" where
  "no_goal = demo\<lparr>isGoalState := (\<lambda>s. False)\<rparr>"

text \<open>The same graph with the start state as goal.\<close>

definition at_goal :: "(node, move) problem" where
  "at_goal = demo\<lparr>isGoalState := (\<lambda>s. s = Src)\<rparr>"

text \<open>One state that is no goal, with a loop of step cost \<open>-1\<close>.\<close>

definition negative_loop :: "(unit, unit) problem" where
  "negative_loop = \<lparr>getStartState = (), isGoalState = (\<lambda>s. False),
      getSuccessors = (\<lambda>s. [((), (), - 1)]), getCostOfActions = (\<lambda>p. 0)\<rparr>"

text \<open>The graph of \<open>demo\<close> with other step costs.\<close>

definition pricey :: "(node, move) problem" where
  "pricey = demo\<lparr>getSuccessors := (\<lambda>s. map (\<lambda>(n, a, w). (n, a, 10 - w)) (demo_successors s))\<rparr>"

text \<open>The variables of a cost-aware search on \<open>negative_loop\<close>: one frontier entry that
  is cheaper than what the dictionary records.\<close>

definition sinking :: "(unit, unit) informed_vars \<Rightarrow> bool" where
  "sinking c = (\<exists>k path vis ex. c = ([(k, (), path, k)], vis, ex) \<and> cheaper vis () k)"

section \<open>The loop: results, invariants, termination\<close>

lemma while_loop_reaches:
  "loop_state body n c = Some c' \<Longrightarrow> body c' = Stop r \<Longrightarrow> while_loop body c = Some r"
proof (induction n arbitrary: c)
  case 0
  then show ?case by (subst while_loop.simps) simp
next
  case (Suc n)
  then show ?case by (subst while_loop.simps) (auto split: step.splits)
qed

lemma while_loop_SomeD:
  "while_loop body c = Some r \<Longrightarrow> \<exists>n c'. loop_state body n c = Some c' \<and> body c' = Stop r"
proof (erule while_loop.raw_induct [rotated, where P = "\<lambda>b c r. \<exists>n c'. loop_state b n c = Some c' \<and> b c' = Stop r"])
  fix wl b c r
  assume IH: "\<And>b c r. wl b c = Some r \<Longrightarrow> \<exists>n c'. loop_state b n c = Some c' \<and> b c' = Stop r"
    and eq: "(case b c of Stop r \<Rightarrow> Some r | Next c' \<Rightarrow> wl b c') = Some r"
  show "\<exists>n c'. loop_state b n c = Some c' \<and> b c' = Stop r"
  proof (cases "b c")
    case (Stop r')
    with eq have "loop_state b 0 c = Some c \<and> b c = Stop r" by simp
    then show ?thesis by blast
  next
    case (Next c1)
    with eq have "wl b c1 = Some r" by simp
    from IH[OF this] obtain n c' where "loop_state b n c1 = Some c'" "b c' = Stop r" by blast
    with Next have "loop_state b (Suc n) c = Some c' \<and> b c' = Stop r" by simp
    then show ?thesis by blast
  qed
qed

lemma loop_state_invariant:
  assumes "loop_state body n c = Some c'" and "I c"
    and "\<And>c c'. I c \<Longrightarrow> body c = Next c' \<Longrightarrow> I c'"
  shows "I c'"
  using assms(1,2)
proof (induction n arbitrary: c)
  case 0
  then show ?case by simp
next
  case (Suc n)
  then show ?case using assms(3) by (auto split: step.splits)
qed

lemma while_loop_terminates:
  assumes "wf R" and "I c"
    and "\<And>c c'. I c \<Longrightarrow> body c = Next c' \<Longrightarrow> I c' \<and> (c', c) \<in> R"
  shows "\<exists>r. while_loop body c = Some r"
  using assms(1,2)
proof (induction c rule: wf_induct_rule)
  case (less c)
  show ?case
  proof (cases "body c")
    case (Stop r)
    then show ?thesis by (subst while_loop.simps) simp
  next
    case (Next c1)
    from assms(3)[OF less.prems Next] less.IH have "\<exists>r. while_loop body c1 = Some r" by blast
    with Next show ?thesis by (subst while_loop.simps) simp
  qed
qed

section \<open>Trajectories\<close>

lemma legal_append:
  "legal problem s (tr @ tr') = (legal problem s tr \<and> legal problem (endState s tr) tr')"
  by (induction tr arbitrary: s) auto

lemma endState_append: "endState s (tr @ tr') = endState (endState s tr) tr'"
  by (induction tr arbitrary: s) auto

section \<open>One pass of depth-first and breadth-first search\<close>

lemma set_fold_stack_push:
  "set (fold (\<lambda>(n, a, w). stack_push (n, path @ [a])) succs fr) =
     set fr \<union> (\<lambda>(n, a, w). (n, path @ [a])) ` set succs"
  by (induction succs arbitrary: fr) (auto simp: stack_push_def)

lemma set_fold_queue_push:
  "set (fold (\<lambda>(n, a, w). queue_push (n, path @ [a])) succs fr) =
     set fr \<union> (\<lambda>(n, a, w). (n, path @ [a])) ` set succs"
  by (induction succs arbitrary: fr) (auto simp: queue_push_def)

lemma dfs_iteration_Next:
  "dfs_iteration problem c = Next c' \<Longrightarrow> uninformed_next problem c c'"
  unfolding dfs_iteration_def uninformed_next_def
  by (auto simp: stack_isEmpty_def stack_pop_def set_fold_stack_push
      split: list.splits if_splits prod.splits sum.splits)

lemma bfs_iteration_Next:
  "bfs_iteration problem c = Next c' \<Longrightarrow> uninformed_next problem c c'"
  unfolding bfs_iteration_def uninformed_next_def
  by (auto simp: queue_isEmpty_def queue_pop_def set_fold_queue_push
      split: list.splits if_splits prod.splits sum.splits)

lemma dfs_iteration_Stop:
  "dfs_iteration problem c = Stop x \<Longrightarrow> uninformed_stop problem c x"
  unfolding dfs_iteration_def uninformed_stop_def
  by (auto simp: stack_isEmpty_def stack_pop_def
      split: list.splits if_splits prod.splits sum.splits)

lemma bfs_iteration_Stop:
  "bfs_iteration problem c = Stop x \<Longrightarrow> uninformed_stop problem c x"
  unfolding bfs_iteration_def uninformed_stop_def
  by (auto simp: queue_isEmpty_def queue_pop_def
      split: list.splits if_splits prod.splits sum.splits)

lemma traced_start: "traced problem (getStartState problem) [] 0"
  unfolding traced_def by (rule exI[of _ "[]"]) (simp add: actionsOf_def costOf_def)

lemma traced_step:
  assumes "traced problem s path g" and "(n, a, w) \<in> set (getSuccessors problem s)"
  shows "traced problem n (path @ [a]) (g + w)"
proof -
  from assms(1) obtain tr where tr: "legal problem (getStartState problem) tr"
    "endState (getStartState problem) tr = s" "actionsOf tr = path" "costOf tr = g"
    unfolding traced_def by blast
  have "legal problem (getStartState problem) (tr @ [(n, a, w)])"
    using tr assms(2) by (simp add: legal_append)
  moreover have "endState (getStartState problem) (tr @ [(n, a, w)]) = n"
    by (simp add: endState_append)
  moreover have "actionsOf (tr @ [(n, a, w)]) = path @ [a]"
    using tr by (simp add: actionsOf_def)
  moreover have "costOf (tr @ [(n, a, w)]) = g + w"
    using tr by (simp add: costOf_def)
  ultimately show ?thesis unfolding traced_def by blast
qed

lemma traced_reachable: "traced problem s path g \<Longrightarrow> s \<in> reachable problem"
  unfolding traced_def reachable_def by blast

lemma traced_Nil: "traced problem s [] g \<Longrightarrow> s = getStartState problem"
  unfolding traced_def actionsOf_def by auto

lemma reachable_closed:
  assumes "getStartState problem \<in> V"
    and "\<And>s e. s \<in> V \<Longrightarrow> e \<in> set (getSuccessors problem s) \<Longrightarrow> fst e \<in> V"
  shows "reachable problem \<subseteq> V"
proof -
  have "legal problem s tr \<Longrightarrow> s \<in> V \<Longrightarrow> endState s tr \<in> V" for s tr
    by (induction tr arbitrary: s) (auto intro: assms(2))
  then show ?thesis using assms(1) unfolding reachable_def by blast
qed

section \<open>Invariant and termination order of the uninformed searches\<close>

lemma uninformed_inv_init:
  "uninformed_inv problem ([(getStartState problem, [])], {}, [])"
  unfolding uninformed_inv_def using traced_start[of problem] by auto

lemma uninformed_inv_next:
  assumes "uninformed_inv problem c" and "uninformed_next problem c c'"
  shows "uninformed_inv problem c'"
proof -
  obtain fr vis ex where c: "c = (fr, vis, ex)" by (cases c)
  obtain fr' vis' ex' where c': "c' = (fr', vis', ex')" by (cases c')
  from assms(2) obtain cur path rest where fr: "fr = (cur, path) # rest"
    and ng: "\<not> isGoalState problem cur"
    and br: "if cur \<in> vis then fr' = rest \<and> vis' = vis \<and> ex' = ex
           else set fr' = set rest \<union> (\<lambda>(n, a, w). (n, path @ [a])) ` set (getSuccessors problem cur) \<and>
                vis' = insert cur vis \<and> ex' = ex @ [cur]"
    unfolding uninformed_next_def c c' by auto
  from assms(1) have I1: "\<forall>(s, path) \<in> set fr. \<exists>g. traced problem s path g"
    and I2: "getStartState problem \<in> vis \<or> getStartState problem \<in> fst ` set fr"
    and I3: "\<forall>s \<in> vis. \<not> isGoalState problem s \<and> s \<in> reachable problem \<and>
           (\<forall>e \<in> set (getSuccessors problem s). fst e \<in> vis \<or> fst e \<in> fst ` set fr)"
    and I4: "set ex = vis" "distinct ex"
    unfolding uninformed_inv_def c by auto
  from I1 fr obtain g where tc: "traced problem cur path g" by auto
  show ?thesis
  proof (cases "cur \<in> vis")
    case True
    with br have eq: "fr' = rest" "vis' = vis" "ex' = ex" by auto
    have "\<forall>(s, path) \<in> set fr'. \<exists>g. traced problem s path g" using I1 fr eq by auto
    moreover have "getStartState problem \<in> vis' \<or> getStartState problem \<in> fst ` set fr'"
      using I2 fr eq True by auto
    moreover have "\<forall>s \<in> vis'. \<not> isGoalState problem s \<and> s \<in> reachable problem \<and>
           (\<forall>e \<in> set (getSuccessors problem s). fst e \<in> vis' \<or> fst e \<in> fst ` set fr')"
      using I3 fr eq True by auto
    ultimately show ?thesis unfolding uninformed_inv_def c' using I4 eq by auto
  next
    case False
    with br have eq: "set fr' = set rest \<union> (\<lambda>(n, a, w). (n, path @ [a])) ` set (getSuccessors problem cur)"
      "vis' = insert cur vis" "ex' = ex @ [cur]" by auto
    have "\<forall>(s, p) \<in> set fr'. \<exists>g. traced problem s p g"
    proof (clarify)
      fix s p assume "(s, p) \<in> set fr'"
      with eq(1) consider "(s, p) \<in> set rest"
        | n a w where "(n, a, w) \<in> set (getSuccessors problem cur)" "s = n" "p = path @ [a]"
        by auto
      then show "\<exists>g. traced problem s p g"
      proof cases
        case 1 then show ?thesis using I1 fr by auto
      next
        case 2 then show ?thesis using traced_step[OF tc 2(1)] by auto
      qed
    qed
    moreover have "getStartState problem \<in> vis' \<or> getStartState problem \<in> fst ` set fr'"
      using I2 fr eq by auto
    moreover have "\<forall>s \<in> vis'. \<not> isGoalState problem s \<and> s \<in> reachable problem \<and>
           (\<forall>e \<in> set (getSuccessors problem s). fst e \<in> vis' \<or> fst e \<in> fst ` set fr')"
    proof
      fix s assume s: "s \<in> vis'"
      show "\<not> isGoalState problem s \<and> s \<in> reachable problem \<and>
           (\<forall>e \<in> set (getSuccessors problem s). fst e \<in> vis' \<or> fst e \<in> fst ` set fr')"
      proof (cases "s = cur")
        case True
        have "\<forall>e \<in> set (getSuccessors problem cur). fst e \<in> fst ` set fr'"
          unfolding eq(1) by (force simp: image_Un image_image split_def)
        then show ?thesis using True ng traced_reachable[OF tc] by auto
      next
        case False
        with s eq have sv: "s \<in> vis" by auto
        with I3 have a: "\<not> isGoalState problem s" "s \<in> reachable problem"
          and b: "\<forall>e \<in> set (getSuccessors problem s). fst e \<in> vis \<or> fst e \<in> fst ` set fr" by auto
        have "\<forall>e \<in> set (getSuccessors problem s). fst e \<in> vis' \<or> fst e \<in> fst ` set fr'"
        proof
          fix e assume "e \<in> set (getSuccessors problem s)"
          with b have "fst e \<in> vis \<or> fst e \<in> fst ` set fr" by auto
          then show "fst e \<in> vis' \<or> fst e \<in> fst ` set fr'"
            unfolding eq(1,2) fr by auto
        qed
        with a show ?thesis by auto
      qed
    qed
    moreover have "set ex' = vis'" "distinct ex'" using I4 eq False by auto
    ultimately show ?thesis unfolding uninformed_inv_def c' by auto
  qed
qed

lemma wf_uninformed_order: "wf (uninformed_order problem)"
  unfolding uninformed_order_def by auto

lemma uninformed_next_decreases:
  assumes fin: "finite (reachable problem)"
    and "uninformed_inv problem c" and "uninformed_next problem c c'"
  shows "(c', c) \<in> uninformed_order problem"
proof -
  obtain fr vis ex where c: "c = (fr, vis, ex)" by (cases c)
  obtain fr' vis' ex' where c': "c' = (fr', vis', ex')" by (cases c')
  from assms(3) obtain cur path rest where fr: "fr = (cur, path) # rest"
    and br: "if cur \<in> vis then fr' = rest \<and> vis' = vis \<and> ex' = ex
           else vis' = insert cur vis"
    unfolding uninformed_next_def c c' by (auto split: if_splits)
  from assms(2) fr obtain g where tc: "traced problem cur path g"
    unfolding uninformed_inv_def c by auto
  show ?thesis
  proof (cases "cur \<in> vis")
    case True
    with br show ?thesis unfolding uninformed_order_def c c' fr by auto
  next
    case False
    with br have v: "vis' = insert cur vis" by auto
    have "cur \<in> reachable problem - vis" using False traced_reachable[OF tc] by auto
    moreover have "reachable problem - vis' = (reachable problem - vis) - {cur}" using v by auto
    moreover have "finite (reachable problem - vis)" using fin by simp
    ultimately have "card (reachable problem - vis') < card (reachable problem - vis)"
      by (metis card_Diff1_less)
    then show ?thesis unfolding uninformed_order_def c c' by auto
  qed
qed

section \<open>One pass of uniform-cost search and A*\<close>

lemma pq_first_min_props:
  "pq_first_min x xs = (m, rest) \<Longrightarrow>
     set (x # xs) = insert m (set rest) \<and> length rest = length xs \<and> (\<forall>e \<in> set (x # xs). fst m \<le> fst e)"
proof (induction xs arbitrary: x m rest)
  case Nil
  then show ?case by auto
next
  case (Cons y ys)
  obtain m' rest' where r: "pq_first_min y ys = (m', rest')" by (cases "pq_first_min y ys")
  from Cons.IH[OF r] have IH: "set (y # ys) = insert m' (set rest')" "length rest' = length ys"
    "\<forall>e \<in> set (y # ys). fst m' \<le> fst e" by auto
  show ?case
  proof (cases "fst x \<le> fst m'")
    case True
    with Cons.prems r have "m = x" "rest = y # ys" by auto
    with IH True show ?thesis by auto
  next
    case False
    with Cons.prems r have "m = m'" "rest = x # rest'" by auto
    with IH False show ?thesis by auto
  qed
qed

lemma set_fold_pq_push:
  "set (fold (\<lambda>(nextState, action, cost) fr.
               if cheaper vis nextState (g + cost)
               then pq_push (nextState, path @ [action], g + cost)
                      (g + cost + heuristic nextState problem) fr
               else fr)
         succs fr) = set fr \<union> pushed problem heuristic vis path g succs"
proof (induction succs arbitrary: fr)
  case Nil
  then show ?case by (simp add: pushed_def)
next
  case (Cons e es)
  obtain n a w where e: "e = (n, a, w)" by (cases e)
  have "pushed problem heuristic vis path g (e # es) =
      (if cheaper vis n (g + w) then {(g + w + heuristic n problem, n, path @ [a], g + w)} else {})
       \<union> pushed problem heuristic vis path g es"
    unfolding pushed_def e by auto
  then show ?case using Cons.IH by (auto simp: e pq_push_def Let_def)
qed

lemma pq_pop_cases:
  obtains "q = []" "pq_pop q = Inl IndexError"
  | pri item rest where "pq_pop q = Inr (item, rest)" "set q = insert (pri, item) (set rest)"
      "length q = Suc (length rest)" "\<forall>e \<in> set q. pri \<le> fst e"
proof (cases q)
  case Nil
  then show ?thesis using that(1) by (simp add: pq_pop_def)
next
  case (Cons x xs)
  obtain m rest where r: "pq_first_min x xs = (m, rest)" by (cases "pq_first_min x xs")
  from pq_first_min_props[OF r] Cons
  have "set q = insert (fst m, snd m) (set rest)" "length q = Suc (length rest)"
    "\<forall>e \<in> set q. fst m \<le> fst e" by auto
  moreover have "pq_pop q = Inr (snd m, rest)" using Cons r by (simp add: pq_pop_def)
  ultimately show ?thesis using that(2) by blast
qed

lemma astar_iteration_Next:
  assumes "astar_iteration problem heuristic c = Next c'"
  shows "informed_next problem heuristic c c'"
proof -
  obtain fr vis ex where c: "c = (fr, vis, ex)" by (cases c)
  obtain fr' vis' ex' where c': "c' = (fr', vis', ex')" by (cases c')
  show ?thesis
  proof (cases fr rule: pq_pop_cases)
    case 1
    with assms show ?thesis by (simp add: astar_iteration_def c pq_isEmpty_def)
  next
    case (2 pri item rest)
    obtain cur path g where item: "item = (cur, path, g)" by (cases item)
    from 2 have ne: "\<not> pq_isEmpty fr" by (cases fr) (auto simp: pq_isEmpty_def)
    from assms have ng: "\<not> isGoalState problem cur"
      unfolding astar_iteration_def c using ne 2(1) item by (auto split: if_splits)
    have br: "if cheaper vis cur g
           then vis' = vis(cur \<mapsto> g) \<and> ex' = ex @ [(cur, g)] \<and>
                set fr' = set rest \<union> pushed problem heuristic vis' path g (getSuccessors problem cur)
           else fr' = rest \<and> vis' = vis \<and> ex' = ex"
      using assms unfolding astar_iteration_def c c' using ne 2(1) item ng
      by (auto simp: Let_def set_fold_pq_push split: if_splits)
    show ?thesis unfolding informed_next_def c c' using 2(2-4) item ng br
      by (intro case_prodI exI[of _ pri] exI[of _ cur] exI[of _ path] exI[of _ g] exI[of _ rest]) simp
  qed
qed

lemma astar_iteration_Stop:
  assumes "astar_iteration problem heuristic c = Stop x"
  shows "informed_stop problem c x"
proof -
  obtain fr vis ex where c: "c = (fr, vis, ex)" by (cases c)
  obtain r ex' where x: "x = (r, ex')" by (cases x)
  show ?thesis
  proof (cases fr rule: pq_pop_cases)
    case 1
    with assms show ?thesis by (auto simp: astar_iteration_def c x pq_isEmpty_def informed_stop_def)
  next
    case (2 pri item rest)
    obtain cur path g where item: "item = (cur, path, g)" by (cases item)
    from 2 have ne: "\<not> pq_isEmpty fr" by (cases fr) (auto simp: pq_isEmpty_def)
    from assms have "isGoalState problem cur \<and> r = Return path \<and> ex' = ex"
      unfolding astar_iteration_def c x using ne 2(1) item by (auto simp: Let_def split: if_splits)
    moreover have "(pri, cur, path, g) \<in> set fr" using 2(2) item by auto
    ultimately show ?thesis unfolding informed_stop_def c x using 2(4) by auto
  qed
qed

text \<open>
  Uniform-cost search is A* with the zero heuristic: the two loop bodies are the same
  function, so every fact about A* carries over.
\<close>

lemma ucs_iteration_eq: "ucs_iteration problem = astar_iteration problem nullHeuristic"
  unfolding ucs_iteration_def astar_iteration_def nullHeuristic_def
  by (rule ext) (simp add: Let_def split: prod.splits sum.splits cong: if_cong)

lemma ucs_init_eq: "ucs_init problem = astar_init problem nullHeuristic"
  unfolding ucs_init_def astar_init_def nullHeuristic_def by (simp add: Let_def)

lemma ucs_run_eq: "ucs_run problem = astar_run problem nullHeuristic"
  unfolding ucs_run_def astar_run_def ucs_iteration_eq ucs_init_eq ..

lemma legal_costOf_nonneg:
  "nonneg_costs problem \<Longrightarrow> legal problem s tr \<Longrightarrow> 0 \<le> costOf tr"
proof (induction tr arbitrary: s)
  case Nil
  then show ?case by (simp add: costOf_def)
next
  case (Cons e es)
  obtain n a w where e: "e = (n, a, w)" by (cases e)
  from Cons.prems have "0 \<le> w" unfolding nonneg_costs_def e by auto
  moreover from Cons have "0 \<le> costOf es" by auto
  ultimately show ?case by (simp add: costOf_def e)
qed

lemma traced_nonneg: "nonneg_costs problem \<Longrightarrow> traced problem s path g \<Longrightarrow> 0 \<le> g"
  unfolding traced_def by (auto dest: legal_costOf_nonneg)

section \<open>Invariant and termination order of the cost-aware searches\<close>

lemma informed_inv_init:
  "informed_inv problem heuristic (astar_init problem heuristic)"
  unfolding informed_inv_def astar_init_def
  using traced_start[of problem] by (simp add: Let_def pq_push_def frontier_states_def)

lemma cheaperD: "\<not> cheaper vis s g \<Longrightarrow> \<exists>v. vis s = Some v \<and> v \<le> g"
  unfolding cheaper_def by (auto split: option.splits)

lemma informed_inv_next:
  assumes "informed_inv problem heuristic c" and "informed_next problem heuristic c c'"
  shows "informed_inv problem heuristic c'"
proof -
  obtain fr vis ex where c: "c = (fr, vis, ex)" by (cases c)
  obtain fr' vis' ex' where c': "c' = (fr', vis', ex')" by (cases c')
  from assms(2) obtain pri cur path g rest where
    fr: "set fr = insert (pri, cur, path, g) (set rest)"
    and ng: "\<not> isGoalState problem cur"
    and br: "if cheaper vis cur g
           then vis' = vis(cur \<mapsto> g) \<and> ex' = ex @ [(cur, g)] \<and>
                set fr' = set rest \<union> pushed problem heuristic vis' path g (getSuccessors problem cur)
           else fr' = rest \<and> vis' = vis \<and> ex' = ex"
    unfolding informed_next_def c c' by auto
  from assms(1) have I1: "\<forall>(pri, s, path, g) \<in> set fr. pri = g + heuristic s problem \<and> traced problem s path g"
    and I2: "getStartState problem \<in> dom vis \<or> getStartState problem \<in> frontier_states fr"
    and I3: "\<And>s v. vis s = Some v \<Longrightarrow> \<not> isGoalState problem s \<and> (\<exists>path. traced problem s path v) \<and>
           (\<forall>e \<in> set (getSuccessors problem s). fst e \<in> dom vis \<or> fst e \<in> frontier_states fr)"
    unfolding informed_inv_def c by auto
  from I1 fr have tc: "traced problem cur path g" by auto
  have fs: "frontier_states fr = insert cur (frontier_states rest)"
    unfolding frontier_states_def fr by simp
  show ?thesis
  proof (cases "cheaper vis cur g")
    case False
    with br have eq: "fr' = rest" "vis' = vis" "ex' = ex" by auto
    from cheaperD[OF False] have cd: "cur \<in> dom vis" by auto
    have "\<forall>(pri, s, path, g) \<in> set fr'. pri = g + heuristic s problem \<and> traced problem s path g"
      using I1 fr eq by auto
    moreover have "getStartState problem \<in> dom vis' \<or> getStartState problem \<in> frontier_states fr'"
      using I2 fs eq cd by auto
    moreover have "\<not> isGoalState problem s \<and> (\<exists>path. traced problem s path v) \<and>
           (\<forall>e \<in> set (getSuccessors problem s). fst e \<in> dom vis' \<or> fst e \<in> frontier_states fr')"
      if "vis' s = Some v" for s v
      using I3[of s v] that fs eq cd by auto
    ultimately show ?thesis unfolding informed_inv_def c' by auto
  next
    case True
    with br have eq: "vis' = vis(cur \<mapsto> g)"
      "set fr' = set rest \<union> pushed problem heuristic vis' path g (getSuccessors problem cur)" by auto
    have fs': "frontier_states rest \<subseteq> frontier_states fr'"
      unfolding frontier_states_def eq(2) by (simp add: image_Un)
    have "\<forall>(pri, s, p, g) \<in> set fr'. pri = g + heuristic s problem \<and> traced problem s p g"
    proof (clarify)
      fix pri2 s p g2 assume "(pri2, s, p, g2) \<in> set fr'"
      with eq(2) consider "(pri2, s, p, g2) \<in> set rest"
        | n a w where "(n, a, w) \<in> set (getSuccessors problem cur)" "s = n" "p = path @ [a]"
          "g2 = g + w" "pri2 = g + w + heuristic n problem"
        unfolding pushed_def by auto
      then show "pri2 = g2 + heuristic s problem \<and> traced problem s p g2"
      proof cases
        case 1 then show ?thesis using I1 fr by auto
      next
        case 2 then show ?thesis using traced_step[OF tc 2(1)] by auto
      qed
    qed
    moreover have "getStartState problem \<in> dom vis' \<or> getStartState problem \<in> frontier_states fr'"
      using I2 fs fs' eq(1) by auto
    moreover have "\<not> isGoalState problem s \<and> (\<exists>path. traced problem s path v) \<and>
           (\<forall>e \<in> set (getSuccessors problem s). fst e \<in> dom vis' \<or> fst e \<in> frontier_states fr')"
      if sv: "vis' s = Some v" for s v
    proof (cases "s = cur")
      case True
      with sv eq(1) have v: "v = g" by simp
      have "fst e \<in> dom vis' \<or> fst e \<in> frontier_states fr'"
        if e: "e \<in> set (getSuccessors problem cur)" for e
      proof (cases "cheaper vis' (fst e) (g + snd (snd e))")
        case True
        obtain n a w where ee: "e = (n, a, w)" by (cases e)
        from True e have "(g + w + heuristic n problem, n, path @ [a], g + w)
            \<in> pushed problem heuristic vis' path g (getSuccessors problem cur)"
          unfolding pushed_def ee by auto
        then have "n \<in> frontier_states fr'" unfolding frontier_states_def eq(2) by force
        then show ?thesis by (simp add: ee)
      next
        case False
        from cheaperD[OF this] show ?thesis by auto
      qed
      with True ng tc v show ?thesis by auto
    next
      case False
      with sv eq(1) have "vis s = Some v" by simp
      from I3[OF this] have a: "\<not> isGoalState problem s" "\<exists>path. traced problem s path v"
        and b: "\<forall>e \<in> set (getSuccessors problem s). fst e \<in> dom vis \<or> fst e \<in> frontier_states fr"
        by auto
      have "\<forall>e \<in> set (getSuccessors problem s). fst e \<in> dom vis' \<or> fst e \<in> frontier_states fr'"
        using b fs fs' eq(1) by auto
      with a show ?thesis by auto
    qed
    ultimately show ?thesis unfolding informed_inv_def c' by auto
  qed
qed

lemma wf_informed_order: "wf (informed_order problem)"
  unfolding informed_order_def by auto

lemma informed_next_decreases:
  assumes fin: "finite (reachable problem)" and nn: "nonneg_costs problem"
    and inv: "informed_inv problem heuristic c" and nxt: "informed_next problem heuristic c c'"
  shows "(c', c) \<in> informed_order problem"
proof -
  obtain fr vis ex where c: "c = (fr, vis, ex)" by (cases c)
  obtain fr' vis' ex' where c': "c' = (fr', vis', ex')" by (cases c')
  from nxt obtain pri cur path g rest where
    fr: "set fr = insert (pri, cur, path, g) (set rest)" and len: "length fr = Suc (length rest)"
    and br: "if cheaper vis cur g then vis' = vis(cur \<mapsto> g) else fr' = rest \<and> vis' = vis"
    unfolding informed_next_def c c' by (auto split: if_splits)
  from inv fr have tc: "traced problem cur path g" unfolding informed_inv_def c by auto
  from inv have dom_reach: "dom vis \<subseteq> reachable problem"
    unfolding informed_inv_def c using traced_reachable by fastforce
  then have fd: "finite (dom vis)" using fin by (rule finite_subset)
  show ?thesis
  proof (cases "cheaper vis cur g")
    case False
    with br len show ?thesis unfolding informed_order_def c c' by auto
  next
    case True
    with br have v: "vis' = vis(cur \<mapsto> g)" by auto
    show ?thesis
    proof (cases "vis cur")
      case None
      then have "cur \<in> reachable problem - dom vis" using traced_reachable[OF tc] by auto
      moreover have "reachable problem - dom vis' = (reachable problem - dom vis) - {cur}"
        using v by auto
      moreover have "finite (reachable problem - dom vis)" using fin by simp
      ultimately have "card (reachable problem - dom vis') < card (reachable problem - dom vis)"
        by (metis card_Diff1_less)
      then show ?thesis unfolding informed_order_def c c' by auto
    next
      case (Some old)
      with True have lt: "g < old" unfolding cheaper_def by simp
      have g0: "0 \<le> g" using traced_nonneg[OF nn tc] .
      have d: "dom vis' = dom vis" using v Some by auto
      have cd: "cur \<in> dom vis" using Some by auto
      have "(\<Sum>s \<in> dom vis. nat (the (vis' s))) =
          nat (the (vis' cur)) + (\<Sum>s \<in> dom vis - {cur}. nat (the (vis' s)))"
        using fd cd by (rule sum.remove)
      moreover have "(\<Sum>s \<in> dom vis. nat (the (vis s))) =
          nat (the (vis cur)) + (\<Sum>s \<in> dom vis - {cur}. nat (the (vis s)))"
        using fd cd by (rule sum.remove)
      moreover have "(\<Sum>s \<in> dom vis - {cur}. nat (the (vis' s))) =
          (\<Sum>s \<in> dom vis - {cur}. nat (the (vis s)))"
        by (rule sum.cong) (auto simp: v)
      moreover have "nat (the (vis' cur)) < nat (the (vis cur))"
        using lt g0 Some v by simp
      ultimately have "(\<Sum>s \<in> dom vis'. nat (the (vis' s))) < (\<Sum>s \<in> dom vis. nat (the (vis s)))"
        unfolding d by linarith
      then show ?thesis unfolding informed_order_def c c' using d by auto
    qed
  qed
qed

section \<open>Best trajectories and the optimality invariant\<close>

lemma best_exists:
  assumes nn: "nonneg_costs problem" and g0: "goal_path problem s tr0"
  shows "\<exists>tr. best problem s tr"
proof -
  let ?r = "inv_image (less_than <*lex*> less_than)
              (\<lambda>tr :: ('a \<times> 'b \<times> int) list. (nat (costOf tr), length tr))"
  have "wf ?r" by auto
  moreover have "tr0 \<in> {tr. goal_path problem s tr}" using g0 by simp
  ultimately obtain z where z: "z \<in> {tr. goal_path problem s tr}"
    and zmin: "\<And>y. (y, z) \<in> ?r \<Longrightarrow> y \<notin> {tr. goal_path problem s tr}"
    by (rule wfE_min) blast
  have "\<not> closer tr' (costOf z) (length z)" if gp: "goal_path problem s tr'" for tr'
  proof
    assume cl: "closer tr' (costOf z) (length z)"
    have "0 \<le> costOf tr'" using gp unfolding goal_path_def
      by (auto intro: legal_costOf_nonneg[OF nn])
    moreover have "0 \<le> costOf z" using z unfolding goal_path_def
      by (auto intro: legal_costOf_nonneg[OF nn])
    ultimately have "(tr', z) \<in> ?r" using cl unfolding closer_def by auto
    from zmin[OF this] gp show False by simp
  qed
  with z show ?thesis unfolding best_def by auto
qed

lemma best_tail:
  assumes "best problem s (e # tr)"
  shows "best problem (fst e) tr"
proof -
  from assms have gp: "goal_path problem (fst e) tr" and e: "e \<in> set (getSuccessors problem s)"
    unfolding best_def goal_path_def by auto
  have "\<not> closer tr' (costOf tr) (length tr)" if g': "goal_path problem (fst e) tr'" for tr'
  proof
    assume cl: "closer tr' (costOf tr) (length tr)"
    have "goal_path problem s (e # tr')" using g' e unfolding goal_path_def by simp
    with assms have "\<not> closer (e # tr') (costOf (e # tr)) (length (e # tr))"
      unfolding best_def by blast
    with cl show False unfolding closer_def costOf_def by auto
  qed
  with gp show ?thesis unfolding best_def by auto
qed

lemma best_unique:
  assumes "best problem s tr" and "best problem s tr'"
  shows "costOf tr = costOf tr' \<and> length tr = length tr'"
proof -
  from assms have "\<not> closer tr' (costOf tr) (length tr)" "\<not> closer tr (costOf tr') (length tr')"
    unfolding best_def by auto
  then show ?thesis unfolding closer_def by auto
qed

lemma cov_mono:
  assumes "cov problem fr B c l" and "B \<le> B'" and "c < c' \<or> (c = c' \<and> l \<le> l')"
    and "set fr \<subseteq> set fr'"
  shows "cov problem fr' B' c' l'"
proof -
  from assms(1) obtain pri s path g tr where w: "(pri, s, path, g) \<in> set fr" "best problem s tr"
    "g + costOf tr \<le> B" "closer tr c l" unfolding cov_def by blast
  have "(pri, s, path, g) \<in> set fr'" using w(1) assms(4) by auto
  moreover have "g + costOf tr \<le> B'" using w(3) assms(2) by simp
  moreover have "closer tr c' l'" using w(4) assms(3) unfolding closer_def by auto
  ultimately show ?thesis using w(2) unfolding cov_def by blast
qed

text \<open>
  The key step of the optimality proof: when the popped entry lies on a best trajectory
  \<open>tr2\<close>, either the next state of \<open>tr2\<close> is pushed, or the dictionary already records it at
  a cost that is no worse, and then the invariant supplies a frontier entry that is
  strictly closer to a goal, hence not the popped one.
\<close>

lemma pop_cover:
  assumes nn: "nonneg_costs problem"
    and K: "covers_visited problem fr vis"
    and fr: "set fr = insert (pri, cur, path, g) (set rest)"
    and ng: "\<not> isGoalState problem cur"
    and br: "if cheaper vis cur g
           then vis' = vis(cur \<mapsto> g) \<and>
                set fr' = set rest \<union> pushed problem heuristic vis' path g (getSuccessors problem cur)
           else fr' = rest \<and> vis' = vis"
    and b: "best problem cur tr2"
  shows "cov problem fr' (g + costOf tr2) (costOf tr2) (length tr2)"
proof -
  have rest_sub: "set rest \<subseteq> set fr'" using br by (auto split: if_splits)
  have not_popped: "(pri3, s3, path3, g3) \<in> set rest"
    if "(pri3, s3, path3, g3) \<in> set fr" "best problem s3 tr4" "closer tr4 (costOf tr2) (length tr2)"
    for pri3 s3 path3 g3 tr4
  proof (rule ccontr)
    assume "(pri3, s3, path3, g3) \<notin> set rest"
    with that(1) fr have "s3 = cur" by auto
    with that(2) have "best problem cur tr4" by simp
    then have "costOf tr4 = costOf tr2 \<and> length tr4 = length tr2"
      using b by (rule best_unique)
    with that(3) show False unfolding closer_def by auto
  qed
  show ?thesis
  proof (cases "cheaper vis cur g")
    case False
    from cheaperD[OF False] obtain v where v: "vis cur = Some v" "v \<le> g" by blast
    from K v(1) b have "cov problem fr (v + costOf tr2) (costOf tr2) (length tr2)"
      unfolding covers_visited_def by blast
    then obtain pri3 s3 path3 g3 tr4 where w: "(pri3, s3, path3, g3) \<in> set fr" "best problem s3 tr4"
      "g3 + costOf tr4 \<le> v + costOf tr2" "closer tr4 (costOf tr2) (length tr2)"
      unfolding cov_def by blast
    from not_popped[OF w(1,2,4)] rest_sub have "(pri3, s3, path3, g3) \<in> set fr'" by auto
    moreover have "g3 + costOf tr4 \<le> g + costOf tr2" using w(3) v(2) by simp
    ultimately show ?thesis using w(2,4) unfolding cov_def by blast
  next
    case True
    with br have eq: "vis' = vis(cur \<mapsto> g)"
      "set fr' = set rest \<union> pushed problem heuristic vis' path g (getSuccessors problem cur)" by auto
    from b ng have "tr2 \<noteq> []" unfolding best_def goal_path_def by auto
    then obtain e tr3 where tr2: "tr2 = e # tr3" by (cases tr2) auto
    obtain n a w where e: "e = (n, a, w)" by (cases e)
    from b have mem: "(n, a, w) \<in> set (getSuccessors problem cur)"
      unfolding best_def goal_path_def tr2 e by simp
    from best_tail[OF b[unfolded tr2]] have b3: "best problem n tr3" by (simp add: e)
    from nn mem have w0: "0 \<le> w" unfolding nonneg_costs_def by auto
    have c2: "costOf tr2 = w + costOf tr3" "length tr2 = Suc (length tr3)"
      unfolding tr2 e costOf_def by auto
    have cl3: "closer tr3 (costOf tr2) (length tr2)" unfolding closer_def c2 using w0 by auto
    show ?thesis
    proof (cases "cheaper vis' n (g + w)")
      case True
      with mem have "(g + w + heuristic n problem, n, path @ [a], g + w) \<in> set fr'"
        unfolding eq(2) pushed_def by auto
      moreover have "g + w + costOf tr3 \<le> g + costOf tr2" using c2 by simp
      ultimately show ?thesis using b3 cl3 unfolding cov_def by blast
    next
      case False
      from cheaperD[OF False] obtain v where v: "vis' n = Some v" "v \<le> g + w" by blast
      have "n \<noteq> cur"
      proof
        assume "n = cur"
        with b3 have "best problem cur tr3" by simp
        then have "length tr3 = length tr2" using best_unique[OF _ b] by simp
        with c2 show False by simp
      qed
      with v(1) eq(1) have "vis n = Some v" by simp
      with K b3 have "cov problem fr (v + costOf tr3) (costOf tr3) (length tr3)"
        unfolding covers_visited_def by blast
      then obtain pri3 s3 path3 g3 tr4 where w: "(pri3, s3, path3, g3) \<in> set fr" "best problem s3 tr4"
        "g3 + costOf tr4 \<le> v + costOf tr3" "closer tr4 (costOf tr3) (length tr3)"
        unfolding cov_def by blast
      have cl4: "closer tr4 (costOf tr2) (length tr2)"
        using w(4) w0 unfolding closer_def c2 by auto
      from not_popped[OF w(1,2) cl4] rest_sub have "(pri3, s3, path3, g3) \<in> set fr'" by auto
      moreover have "g3 + costOf tr4 \<le> g + costOf tr2" using w(3) v(2) c2 by simp
      ultimately show ?thesis using w(2) cl4 unfolding cov_def by blast
    qed
  qed
qed

lemma cov_next:
  assumes nn: "nonneg_costs problem"
    and K: "covers_visited problem fr vis"
    and fr: "set fr = insert (pri, cur, path, g) (set rest)"
    and ng: "\<not> isGoalState problem cur"
    and br: "if cheaper vis cur g
           then vis' = vis(cur \<mapsto> g) \<and>
                set fr' = set rest \<union> pushed problem heuristic vis' path g (getSuccessors problem cur)
           else fr' = rest \<and> vis' = vis"
    and c: "cov problem fr B c l"
  shows "cov problem fr' B c l"
proof -
  have rest_sub: "set rest \<subseteq> set fr'" using br by (auto split: if_splits)
  from c obtain pri2 s2 path2 g2 tr2 where w: "(pri2, s2, path2, g2) \<in> set fr" "best problem s2 tr2"
    "g2 + costOf tr2 \<le> B" "closer tr2 c l" unfolding cov_def by blast
  show ?thesis
  proof (cases "(pri2, s2, path2, g2) \<in> set rest")
    case True
    with rest_sub have "(pri2, s2, path2, g2) \<in> set fr'" by auto
    with w(2-4) show ?thesis unfolding cov_def by blast
  next
    case False
    with w(1) fr have same: "s2 = cur" "g2 = g" by auto
    from pop_cover[OF nn K fr ng br w(2)[unfolded same]]
    have "cov problem fr' (g + costOf tr2) (costOf tr2) (length tr2)" .
    moreover have "g + costOf tr2 \<le> B" using w(3) same by simp
    moreover have "costOf tr2 < c \<or> (costOf tr2 = c \<and> length tr2 \<le> l)"
      using w(4) unfolding closer_def by auto
    ultimately show ?thesis by (rule cov_mono) simp
  qed
qed

lemma opt_inv_init: "opt_inv problem (astar_init problem heuristic)"
proof -
  have "cov problem [(0 + heuristic (getStartState problem) problem, getStartState problem, [], 0)]
          (costOf tr) (costOf tr) (Suc (length tr))"
    if "best problem (getStartState problem) tr" for tr
    unfolding cov_def closer_def using that by auto
  then show ?thesis
    unfolding opt_inv_def astar_init_def covers_visited_def by (simp add: Let_def pq_push_def)
qed

lemma opt_inv_next:
  assumes nn: "nonneg_costs problem"
    and inv: "opt_inv problem c" and nxt: "informed_next problem heuristic c c'"
  shows "opt_inv problem c'"
proof -
  obtain fr vis ex where c: "c = (fr, vis, ex)" by (cases c)
  obtain fr' vis' ex' where c': "c' = (fr', vis', ex')" by (cases c')
  from nxt obtain pri cur path g rest where
    fr: "set fr = insert (pri, cur, path, g) (set rest)"
    and ng: "\<not> isGoalState problem cur"
    and br: "if cheaper vis cur g
           then vis' = vis(cur \<mapsto> g) \<and>
                set fr' = set rest \<union> pushed problem heuristic vis' path g (getSuccessors problem cur)
           else fr' = rest \<and> vis' = vis"
    unfolding informed_next_def c c' by (auto split: if_splits)
  from inv have K: "covers_visited problem fr vis"
    and J: "\<And>tr. best problem (getStartState problem) tr \<Longrightarrow>
           cov problem fr (costOf tr) (costOf tr) (Suc (length tr))"
    unfolding opt_inv_def c by auto
  have "cov problem fr' (v + costOf tr) (costOf tr) (length tr)"
    if sv: "vis' t = Some v" and bt: "best problem t tr" for t v tr
  proof (cases "cheaper vis cur g \<and> t = cur")
    case True
    with br sv have "v = g" by auto
    with pop_cover[OF nn K fr ng br] bt True show ?thesis by auto
  next
    case False
    with br sv have "vis t = Some v" by (auto split: if_splits)
    with K bt have "cov problem fr (v + costOf tr) (costOf tr) (length tr)"
      unfolding covers_visited_def by blast
    from cov_next[OF nn K fr ng br this] show ?thesis .
  qed
  then have "covers_visited problem fr' vis'" unfolding covers_visited_def by blast
  moreover have "cov problem fr' (costOf tr) (costOf tr) (Suc (length tr))"
    if "best problem (getStartState problem) tr" for tr
    using cov_next[OF nn K fr ng br J[OF that]] .
  ultimately show ?thesis unfolding opt_inv_def c' by auto
qed

section \<open>Replaying a plan\<close>

lemma find_action:
  assumes "distinct (map (\<lambda>(n, a, w). a) xs)" and "(n, a, w) \<in> set xs"
  shows "find (\<lambda>(n, b, w). b = a) xs = Some (n, a, w)"
  using assms by (induction xs) (auto simp: rev_image_eqI)

lemma replay_legal:
  assumes "deterministic_actions problem"
  shows "legal problem s tr \<Longrightarrow> replay problem s (actionsOf tr) = Some (endState s tr)"
proof (induction tr arbitrary: s)
  case Nil
  then show ?case by (simp add: actionsOf_def)
next
  case (Cons e es)
  obtain n a w where e: "e = (n, a, w)" by (cases e)
  from Cons.prems have mem: "(n, a, w) \<in> set (getSuccessors problem s)" and l: "legal problem n es"
    by (auto simp: e)
  from assms have "distinct (map (\<lambda>(n, a, w). a) (getSuccessors problem s))"
    unfolding deterministic_actions_def by blast
  from find_action[OF this mem] Cons.IH[OF l] show ?case
    by (simp add: actionsOf_def e)
qed

lemma replay_traced:
  "deterministic_actions problem \<Longrightarrow> traced problem s path g \<Longrightarrow>
     replay problem (getStartState problem) path = Some s"
  unfolding traced_def using replay_legal by fastforce

lemma traced_goal_valid:
  assumes "deterministic_actions problem" and "traced problem s path g" and "isGoalState problem s"
  shows "valid_plan problem path"
proof (cases "path = []")
  case True
  with assms(2) have "s = getStartState problem" using traced_Nil by fastforce
  with assms(3) True show ?thesis by (simp add: valid_plan_def)
next
  case False
  with replay_traced[OF assms(1,2)] assms(3) show ?thesis by (simp add: valid_plan_def)
qed

section \<open>Whole runs\<close>

lemma uninformed_final:
  assumes inv: "uninformed_inv problem c" and stop: "uninformed_stop problem c (r, ex)"
  shows "distinct ex \<and> (\<exists>path. r = Return path \<and>
           ((\<exists>s g. traced problem s path g \<and> isGoalState problem s) \<or>
            (path = [] \<and> fst c = [] \<and> \<not> goal_reachable problem)))"
proof -
  obtain fr vis ex0 where c: "c = (fr, vis, ex0)" by (cases c)
  from inv have I1: "\<forall>(s, path) \<in> set fr. \<exists>g. traced problem s path g"
    and I2: "getStartState problem \<in> vis \<or> getStartState problem \<in> fst ` set fr"
    and I3: "\<forall>s \<in> vis. \<not> isGoalState problem s \<and> s \<in> reachable problem \<and>
           (\<forall>e \<in> set (getSuccessors problem s). fst e \<in> vis \<or> fst e \<in> fst ` set fr)"
    and I4: "distinct ex0"
    unfolding uninformed_inv_def c by auto
  from stop have ex: "ex = ex0" and alt: "(fr = [] \<and> r = Return []) \<or>
      (\<exists>cur path. (cur, path) \<in> set fr \<and> isGoalState problem cur \<and> r = Return path)"
    unfolding uninformed_stop_def c by auto
  from alt show ?thesis
  proof
    assume e: "fr = [] \<and> r = Return []"
    with I2 I3 have "reachable problem \<subseteq> vis"
      by (intro reachable_closed) auto
    with I3 have "\<not> goal_reachable problem" unfolding goal_reachable_def by auto
    with e I4 ex show ?thesis by (simp add: c)
  next
    assume "\<exists>cur path. (cur, path) \<in> set fr \<and> isGoalState problem cur \<and> r = Return path"
    then obtain cur path where p: "(cur, path) \<in> set fr" "isGoalState problem cur" "r = Return path"
      by blast
    with I1 obtain g where "traced problem cur path g" by auto
    with p I4 ex show ?thesis by auto
  qed
qed

lemma dfs_reach_inv:
  "loop_state (dfs_iteration problem) n (dfs_init problem) = Some c \<Longrightarrow> uninformed_inv problem c"
  by (erule loop_state_invariant)
    (auto simp: dfs_init_def stack_push_def uninformed_inv_init
      intro: uninformed_inv_next dfs_iteration_Next)

lemma bfs_reach_inv:
  "loop_state (bfs_iteration problem) n (bfs_init problem) = Some c \<Longrightarrow> uninformed_inv problem c"
  by (erule loop_state_invariant)
    (auto simp: bfs_init_def queue_push_def uninformed_inv_init
      intro: uninformed_inv_next bfs_iteration_Next)

lemma dfs_run_final:
  assumes "dfs_run problem = Some (r, ex)"
  shows "\<exists>n c. loop_state (dfs_iteration problem) n (dfs_init problem) = Some c \<and>
           uninformed_inv problem c \<and> uninformed_stop problem c (r, ex)"
proof -
  from assms obtain n c where "loop_state (dfs_iteration problem) n (dfs_init problem) = Some c"
    "dfs_iteration problem c = Stop (r, ex)"
    unfolding dfs_run_def by (auto dest: while_loop_SomeD)
  then show ?thesis using dfs_reach_inv dfs_iteration_Stop by blast
qed

lemma bfs_run_final:
  assumes "bfs_run problem = Some (r, ex)"
  shows "\<exists>n c. loop_state (bfs_iteration problem) n (bfs_init problem) = Some c \<and>
           uninformed_inv problem c \<and> uninformed_stop problem c (r, ex)"
proof -
  from assms obtain n c where "loop_state (bfs_iteration problem) n (bfs_init problem) = Some c"
    "bfs_iteration problem c = Stop (r, ex)"
    unfolding bfs_run_def by (auto dest: while_loop_SomeD)
  then show ?thesis using bfs_reach_inv bfs_iteration_Stop by blast
qed

lemma dfs_run_total:
  assumes "finite (reachable problem)"
  shows "\<exists>x. dfs_run problem = Some x"
  unfolding dfs_run_def
proof (rule while_loop_terminates[where I = "uninformed_inv problem" and R = "uninformed_order problem"])
  show "wf (uninformed_order problem)" by (rule wf_uninformed_order)
  show "uninformed_inv problem (dfs_init problem)"
    by (simp add: dfs_init_def stack_push_def uninformed_inv_init)
  show "uninformed_inv problem c' \<and> (c', c) \<in> uninformed_order problem"
    if "uninformed_inv problem c" "dfs_iteration problem c = Next c'" for c c'
    using that uninformed_inv_next uninformed_next_decreases[OF assms] dfs_iteration_Next by blast
qed

lemma bfs_run_total:
  assumes "finite (reachable problem)"
  shows "\<exists>x. bfs_run problem = Some x"
  unfolding bfs_run_def
proof (rule while_loop_terminates[where I = "uninformed_inv problem" and R = "uninformed_order problem"])
  show "wf (uninformed_order problem)" by (rule wf_uninformed_order)
  show "uninformed_inv problem (bfs_init problem)"
    by (simp add: bfs_init_def queue_push_def uninformed_inv_init)
  show "uninformed_inv problem c' \<and> (c', c) \<in> uninformed_order problem"
    if "uninformed_inv problem c" "bfs_iteration problem c = Next c'" for c c'
    using that uninformed_inv_next uninformed_next_decreases[OF assms] bfs_iteration_Next by blast
qed

lemma informed_final:
  assumes inv: "informed_inv problem heuristic c" and stop: "informed_stop problem c (r, ex)"
  shows "\<exists>path. r = Return path \<and>
           ((\<exists>s g. traced problem s path g \<and> isGoalState problem s) \<or>
            (path = [] \<and> fst c = [] \<and> \<not> goal_reachable problem))"
proof -
  obtain fr vis ex0 where c: "c = (fr, vis, ex0)" by (cases c)
  from inv have I1: "\<forall>(pri, s, path, g) \<in> set fr. pri = g + heuristic s problem \<and> traced problem s path g"
    and I2: "getStartState problem \<in> dom vis \<or> getStartState problem \<in> frontier_states fr"
    and I3: "\<And>s v. vis s = Some v \<Longrightarrow> \<not> isGoalState problem s \<and> (\<exists>path. traced problem s path v) \<and>
           (\<forall>e \<in> set (getSuccessors problem s). fst e \<in> dom vis \<or> fst e \<in> frontier_states fr)"
    unfolding informed_inv_def c by auto
  from stop have alt: "(fr = [] \<and> r = Return []) \<or>
      (\<exists>pri cur path g. (pri, cur, path, g) \<in> set fr \<and> isGoalState problem cur \<and> r = Return path)"
    unfolding informed_stop_def c by auto
  from alt show ?thesis
  proof
    assume e: "fr = [] \<and> r = Return []"
    then have fs: "frontier_states fr = {}" by (simp add: frontier_states_def)
    have "reachable problem \<subseteq> dom vis"
    proof (rule reachable_closed)
      show "getStartState problem \<in> dom vis" using I2 fs by simp
      show "fst e \<in> dom vis" if "s \<in> dom vis" "e \<in> set (getSuccessors problem s)" for s e
        using I3 that fs by fastforce
    qed
    moreover have "\<not> isGoalState problem s" if "s \<in> dom vis" for s using I3 that by fastforce
    ultimately have "\<not> goal_reachable problem" unfolding goal_reachable_def by auto
    with e show ?thesis by (simp add: c)
  next
    assume "\<exists>pri cur path g. (pri, cur, path, g) \<in> set fr \<and> isGoalState problem cur \<and> r = Return path"
    then obtain pri cur path g where p: "(pri, cur, path, g) \<in> set fr" "isGoalState problem cur"
      "r = Return path" by blast
    with I1 have "traced problem cur path g" by auto
    with p show ?thesis by auto
  qed
qed

lemma astar_reach_inv:
  "loop_state (astar_iteration problem heuristic) n (astar_init problem heuristic) = Some c \<Longrightarrow>
     informed_inv problem heuristic c"
  by (erule loop_state_invariant)
    (auto simp: informed_inv_init intro: informed_inv_next astar_iteration_Next)

lemma astar_reach_opt:
  assumes "nonneg_costs problem"
  shows "loop_state (astar_iteration problem heuristic) n (astar_init problem heuristic) = Some c \<Longrightarrow>
     opt_inv problem c"
  by (erule loop_state_invariant)
    (auto simp: opt_inv_init intro: opt_inv_next[OF assms] astar_iteration_Next)

lemma astar_run_final:
  assumes "astar_run problem heuristic = Some (r, ex)"
  shows "\<exists>n c. loop_state (astar_iteration problem heuristic) n (astar_init problem heuristic) = Some c \<and>
           informed_inv problem heuristic c \<and> informed_stop problem c (r, ex)"
proof -
  from assms obtain n c where
    "loop_state (astar_iteration problem heuristic) n (astar_init problem heuristic) = Some c"
    "astar_iteration problem heuristic c = Stop (r, ex)"
    unfolding astar_run_def by (auto dest: while_loop_SomeD)
  then show ?thesis using astar_reach_inv astar_iteration_Stop by blast
qed

lemma astar_run_total:
  assumes "finite (reachable problem)" and "nonneg_costs problem"
  shows "\<exists>x. astar_run problem heuristic = Some x"
  unfolding astar_run_def
proof (rule while_loop_terminates[where I = "informed_inv problem heuristic" and R = "informed_order problem"])
  show "wf (informed_order problem)" by (rule wf_informed_order)
  show "informed_inv problem heuristic (astar_init problem heuristic)" by (rule informed_inv_init)
  show "informed_inv problem heuristic c' \<and> (c', c) \<in> informed_order problem"
    if "informed_inv problem heuristic c" "astar_iteration problem heuristic c = Next c'" for c c'
    using that informed_inv_next informed_next_decreases[OF assms] astar_iteration_Next by blast
qed

section \<open>The expansion log of the cost-aware searches\<close>

lemma log_inv_init: "log_inv (astar_init problem heuristic)"
  by (simp add: log_inv_def astar_init_def Let_def)

lemma log_inv_next:
  assumes "log_inv c" and "informed_next problem heuristic c c'"
  shows "log_inv c'"
proof -
  obtain fr vis ex where c: "c = (fr, vis, ex)" by (cases c)
  obtain fr' vis' ex' where c': "c' = (fr', vis', ex')" by (cases c')
  from assms(2) obtain pri cur path g rest where
    "if cheaper vis cur g
     then vis' = vis(cur \<mapsto> g) \<and> ex' = ex @ [(cur, g)] \<and>
          set fr' = set rest \<union> pushed problem heuristic vis' path g (getSuccessors problem cur)
     else fr' = rest \<and> vis' = vis \<and> ex' = ex"
    unfolding informed_next_def c c' by auto
  then have br: "if cheaper vis cur g then vis' = vis(cur \<mapsto> g) \<and> ex' = ex @ [(cur, g)]
         else vis' = vis \<and> ex' = ex"
    by (simp split: if_splits)
  from assms(1) have L: "vis = map_of (rev ex)" "relaxing (rev ex)" unfolding log_inv_def c by auto
  show ?thesis
  proof (cases "cheaper vis cur g")
    case True
    with br have eq: "vis' = vis(cur \<mapsto> g)" "ex' = ex @ [(cur, g)]" by auto
    from True L(1) have "case map_of (rev ex) cur of None \<Rightarrow> True | Some recorded \<Rightarrow> g < recorded"
      unfolding cheaper_def by simp
    with L show ?thesis unfolding log_inv_def c' eq by simp
  next
    case False
    with br L show ?thesis unfolding log_inv_def c' by simp
  qed
qed

lemma astar_reach_log:
  "loop_state (astar_iteration problem heuristic) n (astar_init problem heuristic) = Some c \<Longrightarrow>
     log_inv c"
  by (erule loop_state_invariant) (auto simp: log_inv_init intro: log_inv_next astar_iteration_Next)

section \<open>Optimality of A*\<close>

lemma goal_reachable_path:
  "goal_reachable problem \<Longrightarrow> \<exists>tr. goal_path problem (getStartState problem) tr"
  unfolding goal_reachable_def reachable_def goal_path_def by auto

lemma astar_optimal:
  assumes nn: "nonneg_costs problem" and fin: "finite (reachable problem)"
    and gr: "goal_reachable problem"
    and hc: "heuristic_contract problem heuristic" and adm: "admissible problem heuristic"
  shows "\<exists>path ex s g. astar_run problem heuristic = Some (Return path, ex) \<and>
           traced problem s path g \<and> isGoalState problem s \<and>
           (\<forall>tr. goal_path problem (getStartState problem) tr \<longrightarrow> g \<le> costOf tr)"
proof -
  from astar_run_total[OF fin nn] obtain r ex where run: "astar_run problem heuristic = Some (r, ex)"
    by fastforce
  from run obtain n c where
    ls: "loop_state (astar_iteration problem heuristic) n (astar_init problem heuristic) = Some c"
    and st: "astar_iteration problem heuristic c = Stop (r, ex)"
    unfolding astar_run_def by (auto dest: while_loop_SomeD)
  obtain fr vis ex0 where c: "c = (fr, vis, ex0)" by (cases c)
  from astar_reach_inv[OF ls]
  have I1: "\<And>pri s path g. (pri, s, path, g) \<in> set fr \<Longrightarrow>
               pri = g + heuristic s problem \<and> traced problem s path g"
    unfolding informed_inv_def c by auto
  from goal_reachable_path[OF gr] best_exists[OF nn] obtain trs
    where bs: "best problem (getStartState problem) trs" by blast
  from astar_reach_opt[OF nn ls] bs
  have "cov problem fr (costOf trs) (costOf trs) (Suc (length trs))"
    unfolding opt_inv_def c by auto
  then obtain pri2 s2 path2 g2 tr2 where w: "(pri2, s2, path2, g2) \<in> set fr" "best problem s2 tr2"
    "g2 + costOf tr2 \<le> costOf trs" unfolding cov_def by blast
  from w(1) have ne: "fr \<noteq> []" by auto
  from astar_iteration_Stop[OF st] ne obtain pri cur path g where
    p: "(pri, cur, path, g) \<in> set fr" "\<forall>e \<in> set fr. pri \<le> fst e" "isGoalState problem cur"
      "r = Return path"
    unfolding informed_stop_def c by auto
  from I1[OF p(1)] have pri: "pri = g + heuristic cur problem" and tr: "traced problem cur path g"
    by auto
  from I1[OF w(1)] have pri2: "pri2 = g2 + heuristic s2 problem" by auto
  from p(2) w(1) have le: "pri \<le> pri2" by fastforce
  from hc have h0: "0 \<le> heuristic cur problem" unfolding heuristic_contract_def by blast
  from adm w(2) have h2: "heuristic s2 problem \<le> costOf tr2"
    unfolding admissible_def best_def by blast
  have gle: "g \<le> costOf trs" using pri pri2 le h0 h2 w(3) by linarith
  have "g \<le> costOf tr'" if "goal_path problem (getStartState problem) tr'" for tr'
  proof -
    from bs that have "\<not> closer tr' (costOf trs) (length trs)" unfolding best_def by blast
    then have "costOf trs \<le> costOf tr'" unfolding closer_def by auto
    with gle show ?thesis by simp
  qed
  with run p(3,4) tr show ?thesis by blast
qed

lemma null_contract: "heuristic_contract problem nullHeuristic"
  by (simp add: heuristic_contract_def nullHeuristic_def)

lemma null_admissible: "nonneg_costs problem \<Longrightarrow> admissible problem nullHeuristic"
  unfolding admissible_def nullHeuristic_def goal_path_def
  by (auto intro: legal_costOf_nonneg)

lemma traced_min_cost:
  assumes cc: "cost_contract problem" and tr: "traced problem s path g"
    and goal: "isGoalState problem s"
    and low: "\<forall>tr. goal_path problem (getStartState problem) tr \<longrightarrow> g \<le> costOf tr"
  shows "min_cost problem (getCostOfActions problem path)"
proof -
  from tr obtain t where t: "legal problem (getStartState problem) t"
    "endState (getStartState problem) t = s" "actionsOf t = path" "costOf t = g"
    unfolding traced_def by blast
  from cc t(1,3,4) have "getCostOfActions problem path = g" unfolding cost_contract_def by auto
  moreover have "goal_path problem (getStartState problem) t \<and> costOf t = g"
    using t goal unfolding goal_path_def by simp
  ultimately show ?thesis using low unfolding min_cost_def by blast
qed

lemma fold_stack_push_costs:
  "fold (\<lambda>(n, a, w). stack_push (n, path @ [a])) succs fr =
   fold (\<lambda>(n, a). stack_push (n, path @ [a])) (map (\<lambda>(n, a, w). (n, a)) succs) fr"
  by (induction succs arbitrary: fr) auto

lemma fold_queue_push_costs:
  "fold (\<lambda>(n, a, w). queue_push (n, path @ [a])) succs fr =
   fold (\<lambda>(n, a). queue_push (n, path @ [a])) (map (\<lambda>(n, a, w). (n, a)) succs) fr"
  by (induction succs arbitrary: fr) auto

lemma fold_pq_push:
  "fold (\<lambda>(nextState, action, cost) fr.
               if cheaper vis nextState (g + cost)
               then pq_push (nextState, path @ [action], g + cost)
                      (g + cost + heuristic nextState problem) fr
               else fr) succs fr =
   fr @ map (\<lambda>(n, a, w). (g + w + heuristic n problem, n, path @ [a], g + w))
          (filter (\<lambda>(n, a, w). cheaper vis n (g + w)) succs)"
  by (induction succs arbitrary: fr) (auto simp: pq_push_def)

section \<open>Expansion, validity and exhaustion\<close>

lemma pq_pop_nonempty: "pq_pop fr = Inr x \<Longrightarrow> \<not> pq_isEmpty fr"
  by (cases fr) (auto simp: pq_pop_def pq_isEmpty_def)

lemma astar_iteration_expand:
  assumes "pq_pop fr = Inr ((cur, path, g), rest)" and "\<not> isGoalState problem cur"
    and "cheaper vis cur g"
  shows "astar_iteration problem heuristic (fr, vis, ex) =
           Next (rest @ map (\<lambda>(n, a, w). (g + w + heuristic n problem, n, path @ [a], g + w))
                          (filter (\<lambda>(n, a, w). cheaper (vis(cur \<mapsto> g)) n (g + w))
                             (getSuccessors problem cur)),
                 vis(cur \<mapsto> g), ex @ [(cur, g)])"
  using assms pq_pop_nonempty[OF assms(1)]
  by (simp add: astar_iteration_def Let_def fold_pq_push)

lemma astar_iteration_skip:
  assumes "pq_pop fr = Inr ((cur, path, g), rest)" and "\<not> isGoalState problem cur"
    and "\<not> cheaper vis cur g"
  shows "astar_iteration problem heuristic (fr, vis, ex) = Next (rest, vis, ex)"
  using assms pq_pop_nonempty[OF assms(1)]
  by (simp add: astar_iteration_def)

lemma astar_iteration_Next_pop:
  assumes "astar_iteration problem heuristic (fr, vis, ex) = Next c'"
  shows "\<exists>cur path g rest. pq_pop fr = Inr ((cur, path, g), rest) \<and> \<not> isGoalState problem cur"
  using assms unfolding astar_iteration_def
  by (auto split: if_splits sum.splits)

lemma astar_relaxation_step:
  assumes "astar_iteration problem heuristic (fr, vis, ex) = Next (fr', vis', ex')"
  shows "(vis' = vis \<and> ex' = ex) \<or>
         (\<exists>cur path g rest. pq_pop fr = Inr ((cur, path, g), rest) \<and> ex' = ex @ [(cur, g)] \<and>
            vis' = vis(cur \<mapsto> g) \<and> (\<forall>recorded. vis cur = Some recorded \<longrightarrow> g < recorded))"
proof -
  from astar_iteration_Next_pop[OF assms] obtain cur path g rest
    where p: "pq_pop fr = Inr ((cur, path, g), rest)" "\<not> isGoalState problem cur" by blast
  show ?thesis
  proof (cases "cheaper vis cur g")
    case True
    from astar_iteration_expand[OF p True, of heuristic ex] assms
    have "ex' = ex @ [(cur, g)]" "vis' = vis(cur \<mapsto> g)" by auto
    moreover from True have "\<forall>recorded. vis cur = Some recorded \<longrightarrow> g < recorded"
      unfolding cheaper_def by auto
    ultimately show ?thesis using p(1) by blast
  next
    case False
    from astar_iteration_skip[OF p False, of heuristic ex] assms show ?thesis by auto
  qed
qed

lemma final_valid:
  assumes "deterministic_actions problem"
    and "(\<exists>s g. traced problem s path g \<and> isGoalState problem s) \<or>
         (path = [] \<and> fr = [] \<and> \<not> goal_reachable problem)"
  shows "valid_plan problem path"
  using assms(2)
proof
  assume "\<exists>s g. traced problem s path g \<and> isGoalState problem s"
  then show ?thesis using traced_goal_valid[OF assms(1)] by blast
next
  assume "path = [] \<and> fr = [] \<and> \<not> goal_reachable problem"
  then show ?thesis by (simp add: valid_plan_def)
qed

lemma dfs_valid:
  assumes "deterministic_actions problem" and "depthFirstSearch problem = Some (Return path)"
  shows "valid_plan problem path"
proof -
  from assms(2) obtain ex where run: "dfs_run problem = Some (Return path, ex)"
    unfolding depthFirstSearch_def by auto
  from dfs_run_final[OF run] obtain c where "uninformed_inv problem c"
    "uninformed_stop problem c (Return path, ex)" by blast
  from uninformed_final[OF this] final_valid[OF assms(1)] show ?thesis by blast
qed

lemma bfs_valid:
  assumes "deterministic_actions problem" and "breadthFirstSearch problem = Some (Return path)"
  shows "valid_plan problem path"
proof -
  from assms(2) obtain ex where run: "bfs_run problem = Some (Return path, ex)"
    unfolding breadthFirstSearch_def by auto
  from bfs_run_final[OF run] obtain c where "uninformed_inv problem c"
    "uninformed_stop problem c (Return path, ex)" by blast
  from uninformed_final[OF this] final_valid[OF assms(1)] show ?thesis by blast
qed

lemma astar_valid:
  assumes "deterministic_actions problem"
    and "aStarSearch problem heuristic = Some (Return path)"
  shows "valid_plan problem path"
proof -
  from assms(2) obtain ex where run: "astar_run problem heuristic = Some (Return path, ex)"
    unfolding aStarSearch_def by auto
  from astar_run_final[OF run] obtain c where "informed_inv problem heuristic c"
    "informed_stop problem c (Return path, ex)" by blast
  from informed_final[OF this] final_valid[OF assms(1)] show ?thesis by blast
qed

lemma dfs_returns:
  assumes "finite (reachable problem)"
  shows "\<exists>path. depthFirstSearch problem = Some (Return path)"
proof -
  from dfs_run_total[OF assms] obtain r ex where run: "dfs_run problem = Some (r, ex)"
    by fastforce
  from dfs_run_final[OF run] obtain c where "uninformed_inv problem c"
    "uninformed_stop problem c (r, ex)" by blast
  from uninformed_final[OF this] obtain path where "r = Return path" by blast
  with run show ?thesis by (auto simp: depthFirstSearch_def)
qed

lemma bfs_returns:
  assumes "finite (reachable problem)"
  shows "\<exists>path. breadthFirstSearch problem = Some (Return path)"
proof -
  from bfs_run_total[OF assms] obtain r ex where run: "bfs_run problem = Some (r, ex)"
    by fastforce
  from bfs_run_final[OF run] obtain c where "uninformed_inv problem c"
    "uninformed_stop problem c (r, ex)" by blast
  from uninformed_final[OF this] obtain path where "r = Return path" by blast
  with run show ?thesis by (auto simp: breadthFirstSearch_def)
qed

lemma astar_returns:
  assumes "finite (reachable problem)" and "nonneg_costs problem"
  shows "\<exists>path. aStarSearch problem heuristic = Some (Return path)"
proof -
  from astar_run_total[OF assms] obtain r ex
    where run: "astar_run problem heuristic = Some (r, ex)" by fastforce
  from astar_run_final[OF run] obtain c where "informed_inv problem heuristic c"
    "informed_stop problem c (r, ex)" by blast
  from informed_final[OF this] obtain path where "r = Return path" by blast
  with run show ?thesis by (auto simp: aStarSearch_def)
qed

lemma ucs_astar: "uniformCostSearch problem = aStarSearch problem nullHeuristic"
  by (simp add: uniformCostSearch_def aStarSearch_def ucs_run_eq)

lemma no_goal_traced:
  "\<not> goal_reachable problem \<Longrightarrow> traced problem s path g \<Longrightarrow> \<not> isGoalState problem s"
  unfolding goal_reachable_def by (auto dest: traced_reachable)

lemma dfs_no_goal:
  assumes "finite (reachable problem)" and "\<not> goal_reachable problem"
  shows "\<exists>n vis ex. loop_state (dfs_iteration problem) n (dfs_init problem) = Some ([], vis, ex) \<and>
           dfs_run problem = Some (Return [], ex)"
proof -
  from dfs_run_total[OF assms(1)] obtain r ex where run: "dfs_run problem = Some (r, ex)"
    by fastforce
  from dfs_run_final[OF run] obtain n c where
    ls: "loop_state (dfs_iteration problem) n (dfs_init problem) = Some c"
    and inv: "uninformed_inv problem c" and st: "uninformed_stop problem c (r, ex)" by blast
  from uninformed_final[OF inv st] obtain path where r: "r = Return path" and
    alt: "(\<exists>s g. traced problem s path g \<and> isGoalState problem s) \<or>
     (path = [] \<and> fst c = [] \<and> \<not> goal_reachable problem)" by blast
  from assms(2) have "\<not> (\<exists>s g. traced problem s path g \<and> isGoalState problem s)"
    by (auto dest: no_goal_traced)
  with alt have e: "path = []" "fst c = []" by auto
  obtain vis ex0 where c: "c = ([], vis, ex0)" using e(2) by (cases c) auto
  from st have "ex = ex0" unfolding uninformed_stop_def c by simp
  with ls run r e(1) c show ?thesis by blast
qed

lemma bfs_no_goal:
  assumes "finite (reachable problem)" and "\<not> goal_reachable problem"
  shows "\<exists>n vis ex. loop_state (bfs_iteration problem) n (bfs_init problem) = Some ([], vis, ex) \<and>
           bfs_run problem = Some (Return [], ex)"
proof -
  from bfs_run_total[OF assms(1)] obtain r ex where run: "bfs_run problem = Some (r, ex)"
    by fastforce
  from bfs_run_final[OF run] obtain n c where
    ls: "loop_state (bfs_iteration problem) n (bfs_init problem) = Some c"
    and inv: "uninformed_inv problem c" and st: "uninformed_stop problem c (r, ex)" by blast
  from uninformed_final[OF inv st] obtain path where r: "r = Return path" and
    alt: "(\<exists>s g. traced problem s path g \<and> isGoalState problem s) \<or>
     (path = [] \<and> fst c = [] \<and> \<not> goal_reachable problem)" by blast
  from assms(2) have "\<not> (\<exists>s g. traced problem s path g \<and> isGoalState problem s)"
    by (auto dest: no_goal_traced)
  with alt have e: "path = []" "fst c = []" by auto
  obtain vis ex0 where c: "c = ([], vis, ex0)" using e(2) by (cases c) auto
  from st have "ex = ex0" unfolding uninformed_stop_def c by simp
  with ls run r e(1) c show ?thesis by blast
qed

lemma astar_no_goal:
  assumes "finite (reachable problem)" and "\<not> goal_reachable problem" and "nonneg_costs problem"
  shows "\<exists>n vis ex. loop_state (astar_iteration problem heuristic) n (astar_init problem heuristic)
             = Some ([], vis, ex) \<and>
           astar_run problem heuristic = Some (Return [], ex)"
proof -
  from astar_run_total[OF assms(1,3)] obtain r ex
    where run: "astar_run problem heuristic = Some (r, ex)" by fastforce
  from astar_run_final[OF run] obtain n c where
    ls: "loop_state (astar_iteration problem heuristic) n (astar_init problem heuristic) = Some c"
    and inv: "informed_inv problem heuristic c" and st: "informed_stop problem c (r, ex)" by blast
  from informed_final[OF inv st] obtain path where r: "r = Return path" and
    alt: "(\<exists>s g. traced problem s path g \<and> isGoalState problem s) \<or>
     (path = [] \<and> fst c = [] \<and> \<not> goal_reachable problem)" by blast
  from assms(2) have "\<not> (\<exists>s g. traced problem s path g \<and> isGoalState problem s)"
    by (auto dest: no_goal_traced)
  with alt have e: "path = []" "fst c = []" by auto
  obtain vis ex0 where c: "c = ([], vis, ex0)" using e(2) by (cases c) auto
  from st have "ex = ex0" unfolding informed_stop_def c by simp
  with ls run r e(1) c show ?thesis by blast
qed

lemma dfs_never_raises: "depthFirstSearch problem \<noteq> Some (Raise e)"
proof
  assume "depthFirstSearch problem = Some (Raise e)"
  then obtain ex where "dfs_run problem = Some (Raise e, ex)"
    unfolding depthFirstSearch_def by auto
  from dfs_run_final[OF this] uninformed_final show False by blast
qed

lemma bfs_never_raises: "breadthFirstSearch problem \<noteq> Some (Raise e)"
proof
  assume "breadthFirstSearch problem = Some (Raise e)"
  then obtain ex where "bfs_run problem = Some (Raise e, ex)"
    unfolding breadthFirstSearch_def by auto
  from bfs_run_final[OF this] uninformed_final show False by blast
qed

lemma astar_never_raises: "aStarSearch problem heuristic \<noteq> Some (Raise e)"
proof
  assume "aStarSearch problem heuristic = Some (Raise e)"
  then obtain ex where "astar_run problem heuristic = Some (Raise e, ex)"
    unfolding aStarSearch_def by auto
  from astar_run_final[OF this] informed_final show False by blast
qed

section \<open>Facts about the example problems\<close>

lemma node_UNIV: "(UNIV :: node set) = {Src, Via, Alt, Dst}"
  by (auto intro: node.exhaust)

lemma finite_node_set: "finite (X :: node set)"
proof -
  have "finite (UNIV :: node set)" unfolding node_UNIV by simp
  then show ?thesis by (rule rev_finite_subset) simp
qed

lemma demo_nonneg: "nonneg_costs demo"
  unfolding nonneg_costs_def demo_def
proof (intro allI)
  fix s show "\<forall>(n, a, w) \<in> set (getSuccessors \<lparr>getStartState = Src, isGoalState = (\<lambda>s. s = Dst),
      getSuccessors = demo_successors, getCostOfActions = plan_cost demo_successors Src\<rparr> s). 0 \<le> w"
    by (cases s) simp_all
qed

lemma demo_deterministic: "deterministic_actions demo"
  unfolding deterministic_actions_def demo_def
proof (intro allI)
  fix s show "distinct (map (\<lambda>(n, a, w). a) (getSuccessors \<lparr>getStartState = Src,
      isGoalState = (\<lambda>s. s = Dst), getSuccessors = demo_successors,
      getCostOfActions = plan_cost demo_successors Src\<rparr> s))"
    by (cases s) simp_all
qed

lemma plan_cost_legal:
  assumes "deterministic_actions problem"
  shows "legal problem s tr \<Longrightarrow> plan_cost (getSuccessors problem) s (actionsOf tr) = costOf tr"
proof (induction tr arbitrary: s)
  case Nil
  then show ?case by (simp add: actionsOf_def costOf_def)
next
  case (Cons e es)
  obtain n a w where e: "e = (n, a, w)" by (cases e)
  from Cons.prems have mem: "(n, a, w) \<in> set (getSuccessors problem s)" and l: "legal problem n es"
    by (auto simp: e)
  from assms have "distinct (map (\<lambda>(n, a, w). a) (getSuccessors problem s))"
    unfolding deterministic_actions_def by blast
  from find_action[OF this mem] Cons.IH[OF l] show ?case
    by (simp add: actionsOf_def costOf_def e)
qed

lemma demo_cost_contract: "cost_contract demo"
  unfolding cost_contract_def
  using plan_cost_legal[OF demo_deterministic] by (simp add: demo_def)

lemma consistent_admissible:
  assumes c: "consistent problem heuristic"
    and z: "\<forall>s. isGoalState problem s \<longrightarrow> heuristic s problem \<le> 0"
  shows "goal_path problem s tr \<Longrightarrow> heuristic s problem \<le> costOf tr"
proof (induction tr arbitrary: s)
  case Nil
  then show ?case using z by (simp add: goal_path_def costOf_def)
next
  case (Cons e es)
  obtain n a w where e: "e = (n, a, w)" by (cases e)
  from Cons.prems have mem: "(n, a, w) \<in> set (getSuccessors problem s)"
    and g: "goal_path problem n es" by (auto simp: e goal_path_def)
  from c mem have "heuristic s problem \<le> w + heuristic n problem"
    unfolding consistent_def by fastforce
  with Cons.IH[OF g] show ?case by (simp add: costOf_def e)
qed

lemma demo_consistent: "consistent demo demo_heuristic"
  unfolding consistent_def demo_def
proof (intro allI)
  fix s show "\<forall>(n, a, w) \<in> set (getSuccessors \<lparr>getStartState = Src, isGoalState = (\<lambda>s. s = Dst),
      getSuccessors = demo_successors, getCostOfActions = plan_cost demo_successors Src\<rparr> s).
      demo_heuristic s \<lparr>getStartState = Src, isGoalState = (\<lambda>s. s = Dst),
      getSuccessors = demo_successors, getCostOfActions = plan_cost demo_successors Src\<rparr>
      \<le> w + demo_heuristic n \<lparr>getStartState = Src, isGoalState = (\<lambda>s. s = Dst),
      getSuccessors = demo_successors, getCostOfActions = plan_cost demo_successors Src\<rparr>"
    by (cases s) simp_all
qed

lemma demo_heuristic_nonneg: "0 \<le> demo_heuristic s problem"
  by (cases s) simp_all

lemma demo_heuristic_contract: "heuristic_contract demo demo_heuristic"
  by (simp add: heuristic_contract_def demo_heuristic_nonneg)

lemma demo_admissible: "admissible demo demo_heuristic"
  unfolding admissible_def
proof (intro allI impI)
  fix s tr assume "goal_path demo s tr"
  moreover have "\<forall>s. isGoalState demo s \<longrightarrow> demo_heuristic s demo \<le> 0"
    by (simp add: demo_def)
  ultimately show "demo_heuristic s demo \<le> costOf tr"
    using consistent_admissible[OF demo_consistent] by blast
qed

lemma demo_goal_reachable: "goal_reachable demo"
proof -
  have "legal demo (getStartState demo) [(Alt, ToAlt, 2), (Dst, ToDst, 1)]" by (simp add: demo_def)
  moreover have "endState (getStartState demo) [(Alt, ToAlt, 2), (Dst, ToDst, 1)] = Dst" by simp
  ultimately have "Dst \<in> reachable demo" unfolding reachable_def by blast
  moreover have "isGoalState demo Dst" by (simp add: demo_def)
  ultimately show ?thesis unfolding goal_reachable_def by blast
qed

lemma no_goal_unreachable: "\<not> goal_reachable no_goal"
  by (simp add: goal_reachable_def no_goal_def)

lemma no_goal_nonneg: "nonneg_costs no_goal"
  using demo_nonneg by (simp add: nonneg_costs_def no_goal_def demo_def)

lemma sinking_init: "sinking (astar_init negative_loop nullHeuristic)"
  unfolding sinking_def astar_init_def
  by (simp add: Let_def pq_push_def nullHeuristic_def negative_loop_def cheaper_def)

lemma sinking_step:
  assumes "sinking c"
  shows "\<exists>c'. astar_iteration negative_loop nullHeuristic c = Next c' \<and> sinking c'"
proof -
  from assms obtain k path vis ex where c: "c = ([(k, (), path, k)], vis, ex)"
    and ch: "cheaper vis () k" unfolding sinking_def by blast
  have p: "pq_pop [(k, (), path, k)] = Inr (((), path, k), [])" by (simp add: pq_pop_def)
  have g: "\<not> isGoalState negative_loop ()" by (simp add: negative_loop_def)
  have "astar_iteration negative_loop nullHeuristic c =
      Next ([(k - 1, (), path @ [()], k - 1)], vis(() \<mapsto> k), ex @ [((), k)])"
    unfolding c astar_iteration_expand[OF p g ch]
    by (simp add: negative_loop_def nullHeuristic_def cheaper_def)
  moreover have "sinking ([(k - 1, (), path @ [()], k - 1)], vis(() \<mapsto> k), ex @ [((), k)])"
    unfolding sinking_def by (simp add: cheaper_def)
  ultimately show ?thesis by blast
qed

lemma negative_loop_diverges: "astar_run negative_loop nullHeuristic = None"
proof (rule ccontr)
  assume "astar_run negative_loop nullHeuristic \<noteq> None"
  then obtain x where "astar_run negative_loop nullHeuristic = Some x" by auto
  then obtain n c where
    ls: "loop_state (astar_iteration negative_loop nullHeuristic) n
           (astar_init negative_loop nullHeuristic) = Some c"
    and st: "astar_iteration negative_loop nullHeuristic c = Stop x"
    unfolding astar_run_def by (auto dest: while_loop_SomeD)
  have "sinking c"
    using ls sinking_init
  proof (rule loop_state_invariant)
    fix c c' assume "sinking c" "astar_iteration negative_loop nullHeuristic c = Next c'"
    with sinking_step[of c] show "sinking c'" by auto
  qed
  from sinking_step[OF this] st show False by auto
qed

section \<open>Properties of the four searches\<close>

text \<open>
  Claim C1. For a problem with non-negative step costs and a finite reachable state space
  in which a goal is reachable, \<^verbatim>\<open>uniformCostSearch\<close> returns an action sequence whose
  \<^verbatim>\<open>getCostOfActions\<close> is the minimum cost of a trajectory from the start state to a goal
  state, and so does \<^verbatim>\<open>aStarSearch\<close> under an admissible and consistent heuristic. The two
  interface contracts are hypotheses: \<^verbatim>\<open>getCostOfActions\<close> returns the total step cost of a
  legal action sequence, and the heuristic returns non-negative numbers. (The proof uses
  admissibility, not consistency: a state is expanded again when a cheaper path to it
  turns up.)
\<close>

theorem optimal_cost:
  assumes "nonneg_costs problem" and "finite (reachable problem)" and "goal_reachable problem"
    and "cost_contract problem" and "heuristic_contract problem heuristic"
    and "admissible problem heuristic" and "consistent problem heuristic"
  shows "(\<exists>path. uniformCostSearch problem = Some (Return path) \<and>
             min_cost problem (getCostOfActions problem path)) \<and>
         (\<exists>path. aStarSearch problem heuristic = Some (Return path) \<and>
             min_cost problem (getCostOfActions problem path))"
proof
  from astar_optimal[OF assms(1-3) null_contract null_admissible[OF assms(1)]]
  obtain path ex s g where "astar_run problem nullHeuristic = Some (Return path, ex)"
    "traced problem s path g" "isGoalState problem s"
    "\<forall>tr. goal_path problem (getStartState problem) tr \<longrightarrow> g \<le> costOf tr" by blast
  then have "uniformCostSearch problem = Some (Return path) \<and>
      min_cost problem (getCostOfActions problem path)"
    using traced_min_cost[OF assms(4)] by (simp add: uniformCostSearch_def ucs_run_eq)
  then show "\<exists>path. uniformCostSearch problem = Some (Return path) \<and>
      min_cost problem (getCostOfActions problem path)" ..
next
  from astar_optimal[OF assms(1-3,5,6)]
  obtain path ex s g where "astar_run problem heuristic = Some (Return path, ex)"
    "traced problem s path g" "isGoalState problem s"
    "\<forall>tr. goal_path problem (getStartState problem) tr \<longrightarrow> g \<le> costOf tr" by blast
  then have "aStarSearch problem heuristic = Some (Return path) \<and>
      min_cost problem (getCostOfActions problem path)"
    using traced_min_cost[OF assms(4)] by (simp add: aStarSearch_def)
  then show "\<exists>path. aStarSearch problem heuristic = Some (Return path) \<and>
      min_cost problem (getCostOfActions problem path)" ..
qed

text \<open>
  On \<open>demo\<close> with \<open>demo_heuristic\<close> all hypotheses hold; both searches return the path
  through \<open>Alt\<close>, of cost 3, the minimum.
\<close>

theorem optimal_cost_witness:
  "nonneg_costs demo \<and> finite (reachable demo) \<and> goal_reachable demo \<and> cost_contract demo \<and>
   heuristic_contract demo demo_heuristic \<and>
   admissible demo demo_heuristic \<and> consistent demo demo_heuristic \<and>
   uniformCostSearch demo = Some (Return [ToAlt, ToDst]) \<and>
   aStarSearch demo demo_heuristic = Some (Return [ToAlt, ToDst]) \<and>
   getCostOfActions demo [ToAlt, ToDst] = 3 \<and> min_cost demo 3"
proof -
  have u: "uniformCostSearch demo = Some (Return [ToAlt, ToDst])" by code_simp
  have a: "aStarSearch demo demo_heuristic = Some (Return [ToAlt, ToDst])" by code_simp
  have c: "getCostOfActions demo [ToAlt, ToDst] = 3" by (simp add: demo_def)
  from optimal_cost[OF demo_nonneg finite_node_set demo_goal_reachable demo_cost_contract
      demo_heuristic_contract demo_admissible demo_consistent] u c
  have "min_cost demo 3" by auto
  with u a c demo_nonneg finite_node_set demo_goal_reachable demo_cost_contract
    demo_heuristic_contract demo_admissible demo_consistent show ?thesis by blast
qed

text \<open>
  Claim C2. On a well-behaved problem (each action is carried by one successor triple of
  a state), whenever one of the four searches returns an action sequence: if it is
  non-empty, replaying it from the start state through \<^verbatim>\<open>getSuccessors\<close> ends in a goal
  state; if it is empty, the start state is a goal or no goal state is reachable. When
  the reachable state space is finite and the step costs are non-negative, each search
  does return an action sequence.
\<close>

theorem path_validity:
  assumes "deterministic_actions problem"
  shows "(\<forall>path. depthFirstSearch problem = Some (Return path) \<longrightarrow> valid_plan problem path) \<and>
         (\<forall>path. breadthFirstSearch problem = Some (Return path) \<longrightarrow> valid_plan problem path) \<and>
         (\<forall>path. uniformCostSearch problem = Some (Return path) \<longrightarrow> valid_plan problem path) \<and>
         (\<forall>path. aStarSearch problem heuristic = Some (Return path) \<longrightarrow>
            valid_plan problem path) \<and>
         (finite (reachable problem) \<and> nonneg_costs problem \<longrightarrow>
            (\<exists>path. depthFirstSearch problem = Some (Return path)) \<and>
            (\<exists>path. breadthFirstSearch problem = Some (Return path)) \<and>
            (\<exists>path. uniformCostSearch problem = Some (Return path)) \<and>
            (\<exists>path. aStarSearch problem heuristic = Some (Return path)))"
proof (intro conjI allI impI)
  fix path
  show "valid_plan problem path" if "depthFirstSearch problem = Some (Return path)"
    using dfs_valid[OF assms that] .
  show "valid_plan problem path" if "breadthFirstSearch problem = Some (Return path)"
    using bfs_valid[OF assms that] .
  show "valid_plan problem path" if "uniformCostSearch problem = Some (Return path)"
    using astar_valid[OF assms, of nullHeuristic path] that by (simp add: ucs_astar)
  show "valid_plan problem path" if "aStarSearch problem heuristic = Some (Return path)"
    using astar_valid[OF assms that] .
next
  assume h: "finite (reachable problem) \<and> nonneg_costs problem"
  show "\<exists>path. depthFirstSearch problem = Some (Return path)" using dfs_returns h by blast
  show "\<exists>path. breadthFirstSearch problem = Some (Return path)" using bfs_returns h by blast
  show "\<exists>path. uniformCostSearch problem = Some (Return path)"
    using astar_returns[of problem nullHeuristic] h by (simp add: ucs_astar)
  show "\<exists>path. aStarSearch problem heuristic = Some (Return path)"
    using astar_returns h by blast
qed

text \<open>
  On \<open>demo\<close> the depth-first plan goes through \<open>Alt\<close>, the breadth-first plan through
  \<open>Via\<close>; both replay to the goal.
\<close>

theorem path_validity_witness:
  "deterministic_actions demo \<and> finite (reachable demo) \<and> nonneg_costs demo \<and>
   depthFirstSearch demo = Some (Return [ToAlt, ToDst]) \<and> valid_plan demo [ToAlt, ToDst] \<and>
   breadthFirstSearch demo = Some (Return [ToVia, ToDst]) \<and> valid_plan demo [ToVia, ToDst] \<and>
   uniformCostSearch demo = Some (Return [ToAlt, ToDst]) \<and>
   aStarSearch demo demo_heuristic = Some (Return [ToAlt, ToDst])"
proof -
  have d: "depthFirstSearch demo = Some (Return [ToAlt, ToDst])" by code_simp
  have b: "breadthFirstSearch demo = Some (Return [ToVia, ToDst])" by code_simp
  have u: "uniformCostSearch demo = Some (Return [ToAlt, ToDst])" by code_simp
  have a: "aStarSearch demo demo_heuristic = Some (Return [ToAlt, ToDst])" by code_simp
  from path_validity[OF demo_deterministic, of demo_heuristic] d b
  have "valid_plan demo [ToAlt, ToDst]" "valid_plan demo [ToVia, ToDst]" by auto
  with d b u a demo_deterministic demo_nonneg finite_node_set show ?thesis by blast
qed

text \<open>
  Claim C3. For every problem, \<^verbatim>\<open>aStarSearch\<close> with \<^verbatim>\<open>nullHeuristic\<close> and
  \<^verbatim>\<open>uniformCostSearch\<close> have the same outcome (the same action sequence, or both never
  return), hence the same total cost.
\<close>

theorem zero_heuristic_is_ucs:
  "aStarSearch problem nullHeuristic = uniformCostSearch problem \<and>
   map_option (resultCost problem) (aStarSearch problem nullHeuristic) =
   map_option (resultCost problem) (uniformCostSearch problem)"
proof -
  have body: "astar_iteration problem nullHeuristic = ucs_iteration problem"
    by (simp add: ucs_iteration_eq)
  have init: "astar_init problem nullHeuristic = ucs_init problem"
    by (simp add: ucs_init_eq)
  have "astar_run problem nullHeuristic = ucs_run problem"
    unfolding astar_run_def ucs_run_def body init ..
  then have "aStarSearch problem nullHeuristic = uniformCostSearch problem"
    by (simp add: aStarSearch_def uniformCostSearch_def)
  then show ?thesis by simp
qed

text \<open>
  On \<open>demo\<close> both return the path through \<open>Alt\<close>.
\<close>

theorem zero_heuristic_is_ucs_witness:
  "aStarSearch demo nullHeuristic = Some (Return [ToAlt, ToDst]) \<and>
   uniformCostSearch demo = Some (Return [ToAlt, ToDst])"
proof -
  have "uniformCostSearch demo = Some (Return [ToAlt, ToDst])" by code_simp
  with zero_heuristic_is_ucs[of demo] show ?thesis by simp
qed

text \<open>
  Claim C4, amended. In a pass of \<^verbatim>\<open>uniformCostSearch\<close> or \<^verbatim>\<open>aStarSearch\<close> whose popped state
  is no goal and passes the skip-check, the successor triples whose state is absent from
  the updated best-cost map, or whose new accumulated cost is strictly below the
  recorded one, each yield a frontier entry (path extended by the action, cost increased
  by the step cost), inserted after the remaining entries in the order of the triples,
  with priority the new cost (uniform-cost search) or the new cost plus the heuristic
  (A*); the other triples yield no entry.
\<close>

theorem expansion_pushes_cheaper_successors:
  assumes "pq_pop frontier = Inr ((currentState, path, currentCost), rest)"
    and "\<not> isGoalState problem currentState"
    and "cheaper visited currentState currentCost"
  shows "ucs_iteration problem (frontier, visited, expanded) =
           Next (rest @ map (\<lambda>(n, a, w). (currentCost + w, n, path @ [a], currentCost + w))
                          (filter (\<lambda>(n, a, w).
                               cheaper (visited(currentState \<mapsto> currentCost)) n (currentCost + w))
                             (getSuccessors problem currentState)),
                 visited(currentState \<mapsto> currentCost),
                 expanded @ [(currentState, currentCost)]) \<and>
         astar_iteration problem heuristic (frontier, visited, expanded) =
           Next (rest @ map (\<lambda>(n, a, w). (currentCost + w + heuristic n problem, n, path @ [a],
                                           currentCost + w))
                          (filter (\<lambda>(n, a, w).
                               cheaper (visited(currentState \<mapsto> currentCost)) n (currentCost + w))
                             (getSuccessors problem currentState)),
                 visited(currentState \<mapsto> currentCost),
                 expanded @ [(currentState, currentCost)])"
  using astar_iteration_expand[OF assms, of nullHeuristic expanded]
    astar_iteration_expand[OF assms, of heuristic expanded]
  by (simp add: ucs_iteration_eq nullHeuristic_def)

text \<open>
  The second pass on \<open>demo\<close>: of the two successor triples of \<open>Via\<close>, the one to \<open>Dst\<close>
  is inserted at cost 6, the one back to \<open>Src\<close> is not.
\<close>

theorem expansion_pushes_cheaper_successors_witness:
  "pq_pop [(1, Via, [ToVia], 1), (2, Alt, [ToAlt], 2)] = Inr ((Via, [ToVia], 1), [(2, Alt, [ToAlt], 2)]) \<and>
   \<not> isGoalState demo Via \<and> cheaper [Src \<mapsto> 0] Via 1 \<and>
   ucs_iteration demo ([(1, Via, [ToVia], 1), (2, Alt, [ToAlt], 2)], [Src \<mapsto> 0], [(Src, 0)]) =
     Next ([(2, Alt, [ToAlt], 2), (6, Dst, [ToVia, ToDst], 6)], [Src \<mapsto> 0, Via \<mapsto> 1], [(Src, 0), (Via, 1)]) \<and>
   astar_iteration demo demo_heuristic
       ([(1, Via, [ToVia], 1), (2, Alt, [ToAlt], 2)], [Src \<mapsto> 0], [(Src, 0)]) =
     Next ([(2, Alt, [ToAlt], 2), (6, Dst, [ToVia, ToDst], 6)], [Src \<mapsto> 0, Via \<mapsto> 1], [(Src, 0), (Via, 1)])"
proof -
  have p: "pq_pop [(1, Via, [ToVia], 1), (2, Alt, [ToAlt], 2)] = Inr ((Via, [ToVia], 1), [(2, Alt, [ToAlt], 2)])"
    by (simp add: pq_pop_def)
  have g: "\<not> isGoalState demo Via" by (simp add: demo_def)
  have c: "cheaper [Src \<mapsto> 0] Via 1" by (simp add: cheaper_def)
  from expansion_pushes_cheaper_successors[OF p g c, of "[(Src, 0)]" demo_heuristic] p g c
  show ?thesis by (simp add: demo_def cheaper_def)
qed

text \<open>
  Claim C4 as stated fails: in the second pass of uniform-cost search on \<open>demo\<close>, state
  \<open>Via\<close> passes the skip-check, and its successor triple \<open>(Src, Back, 0)\<close> yields no
  frontier entry, because \<open>Src\<close> is recorded at cost 0.
\<close>

theorem all_successors_pushed_counterexample:
  "loop_state (ucs_iteration demo) 1 (ucs_init demo) =
     Some ([(1, Via, [ToVia], 1), (2, Alt, [ToAlt], 2)], [Src \<mapsto> 0], [(Src, 0)]) \<and>
   pq_pop [(1, Via, [ToVia], 1), (2, Alt, [ToAlt], 2)] = Inr ((Via, [ToVia], 1), [(2, Alt, [ToAlt], 2)]) \<and>
   \<not> isGoalState demo Via \<and> cheaper [Src \<mapsto> 0] Via 1 \<and>
   (Src, Back, 0) \<in> set (getSuccessors demo Via) \<and>
   ucs_iteration demo ([(1, Via, [ToVia], 1), (2, Alt, [ToAlt], 2)], [Src \<mapsto> 0], [(Src, 0)]) =
     Next ([(2, Alt, [ToAlt], 2), (6, Dst, [ToVia, ToDst], 6)], [Src \<mapsto> 0, Via \<mapsto> 1], [(Src, 0), (Via, 1)]) \<and>
   astar_iteration demo nullHeuristic ([(1, Via, [ToVia], 1), (2, Alt, [ToAlt], 2)], [Src \<mapsto> 0], [(Src, 0)]) =
     Next ([(2, Alt, [ToAlt], 2), (6, Dst, [ToVia, ToDst], 6)], [Src \<mapsto> 0, Via \<mapsto> 1], [(Src, 0), (Via, 1)]) \<and>
   (1, Src, [ToVia, Back], 1) \<notin> set [(2, Alt, [ToAlt], 2), (6, Dst, [ToVia, ToDst], 6)]"
  by (simp add: ucs_iteration_def astar_iteration_def ucs_init_def pq_push_def pq_isEmpty_def
      pq_pop_def demo_def cheaper_def nullHeuristic_def Let_def)

text \<open>
  Claim C5. In \<^verbatim>\<open>depthFirstSearch\<close> and \<^verbatim>\<open>breadthFirstSearch\<close>, the list of states on which
  \<^verbatim>\<open>getSuccessors\<close> has been called never holds a state twice: after any number of passes
  it is a list without repetition of exactly the visited states, and so it is when the
  search returns.
\<close>

theorem expanded_at_most_once:
  "(loop_state (dfs_iteration problem) n (dfs_init problem) = Some (fr, vis, ex) \<longrightarrow>
      distinct ex \<and> set ex = vis) \<and>
   (dfs_run problem = Some (r, ex') \<longrightarrow> distinct ex') \<and>
   (loop_state (bfs_iteration problem) n (bfs_init problem) = Some (fr, vis, ex) \<longrightarrow>
      distinct ex \<and> set ex = vis) \<and>
   (bfs_run problem = Some (r, ex') \<longrightarrow> distinct ex')"
proof -
  have "distinct ex \<and> set ex = vis" if "uninformed_inv problem (fr, vis, ex)"
    using that unfolding uninformed_inv_def by simp
  moreover have "distinct ex'" if "dfs_run problem = Some (r, ex')"
    using dfs_run_final[OF that] uninformed_final by blast
  moreover have "distinct ex'" if "bfs_run problem = Some (r, ex')"
    using bfs_run_final[OF that] uninformed_final by blast
  ultimately show ?thesis using dfs_reach_inv bfs_reach_inv by blast
qed

text \<open>
  On \<open>no_goal\<close> the start state is pushed again through the cycle, and expanded once.
\<close>

theorem expanded_at_most_once_witness:
  "loop_state (dfs_iteration no_goal) 1 (dfs_init no_goal) =
     Some ([(Alt, [ToAlt]), (Via, [ToVia])], {Src}, [Src]) \<and> distinct [Src] \<and> set [Src] = {Src} \<and>
   dfs_run no_goal = Some (Return [], [Src, Alt, Dst, Via]) \<and> distinct [Src, Alt, Dst, Via] \<and>
   loop_state (bfs_iteration no_goal) 1 (bfs_init no_goal) =
     Some ([(Via, [ToVia]), (Alt, [ToAlt])], {Src}, [Src]) \<and>
   bfs_run no_goal = Some (Return [], [Src, Via, Alt, Dst]) \<and> distinct [Src, Via, Alt, Dst]"
proof -
  have d1: "loop_state (dfs_iteration no_goal) 1 (dfs_init no_goal) =
     Some ([(Alt, [ToAlt]), (Via, [ToVia])], {Src}, [Src])"
    by (simp add: dfs_iteration_def dfs_init_def stack_push_def stack_isEmpty_def stack_pop_def
        no_goal_def demo_def)
  have b1: "loop_state (bfs_iteration no_goal) 1 (bfs_init no_goal) =
     Some ([(Via, [ToVia]), (Alt, [ToAlt])], {Src}, [Src])"
    by (simp add: bfs_iteration_def bfs_init_def queue_push_def queue_isEmpty_def queue_pop_def
        no_goal_def demo_def)
  have d: "dfs_run no_goal = Some (Return [], [Src, Alt, Dst, Via])" by code_simp
  have b: "bfs_run no_goal = Some (Return [], [Src, Via, Alt, Dst])" by code_simp
  from expanded_at_most_once[of no_goal 1 "[(Alt, [ToAlt]), (Via, [ToVia])]" "{Src}" "[Src]"
      "Return []" "[Src, Alt, Dst, Via]"] d1 d
  have "distinct [Src] \<and> set [Src] = {Src}" "distinct [Src, Alt, Dst, Via]" by blast+
  moreover from expanded_at_most_once[of no_goal 1 "[(Via, [ToVia]), (Alt, [ToAlt])]" "{Src}" "[Src]"
      "Return []" "[Src, Via, Alt, Dst]"] b
  have "distinct [Src, Via, Alt, Dst]" by blast
  ultimately show ?thesis using d1 b1 d b by blast
qed

text \<open>
  Claim C6. A pass of \<^verbatim>\<open>uniformCostSearch\<close> or \<^verbatim>\<open>aStarSearch\<close> that does not return either
  leaves the best-cost map and the expansion log alone, or expands the popped state; in
  that case, if the map recorded a cost for the state, the popped cost is strictly
  smaller, and the map then records the popped cost. Over a run, the map records the
  cost of the latest expansion of each state, and each expansion of a state costs
  strictly less than the earlier ones.
\<close>

theorem monotonic_relaxation:
  "(ucs_iteration problem (fr, vis, ex) = Next (fr', vis', ex') \<longrightarrow>
      (vis' = vis \<and> ex' = ex) \<or>
      (\<exists>cur path g rest. pq_pop fr = Inr ((cur, path, g), rest) \<and> ex' = ex @ [(cur, g)] \<and>
         vis' = vis(cur \<mapsto> g) \<and> (\<forall>recorded. vis cur = Some recorded \<longrightarrow> g < recorded))) \<and>
   (astar_iteration problem heuristic (fr, vis, ex) = Next (fr', vis', ex') \<longrightarrow>
      (vis' = vis \<and> ex' = ex) \<or>
      (\<exists>cur path g rest. pq_pop fr = Inr ((cur, path, g), rest) \<and> ex' = ex @ [(cur, g)] \<and>
         vis' = vis(cur \<mapsto> g) \<and> (\<forall>recorded. vis cur = Some recorded \<longrightarrow> g < recorded))) \<and>
   (loop_state (ucs_iteration problem) n (ucs_init problem) = Some (fr, vis, ex) \<longrightarrow>
      vis = map_of (rev ex) \<and> relaxing (rev ex)) \<and>
   (loop_state (astar_iteration problem heuristic) n (astar_init problem heuristic) =
      Some (fr, vis, ex) \<longrightarrow> vis = map_of (rev ex) \<and> relaxing (rev ex))"
  using astar_relaxation_step[of problem nullHeuristic fr vis ex fr' vis' ex']
    astar_relaxation_step[of problem heuristic fr vis ex fr' vis' ex']
    astar_reach_log[of problem nullHeuristic n "(fr, vis, ex)"]
    astar_reach_log[of problem heuristic n "(fr, vis, ex)"]
  unfolding ucs_iteration_eq ucs_init_eq log_inv_def by simp

text \<open>
  On \<open>negative_loop\<close> the second pass expands the state again, at cost \<open>-1\<close> below the
  recorded 0.
\<close>

theorem monotonic_relaxation_witness:
  "ucs_iteration negative_loop ([(- 1, (), [()], - 1)], [() \<mapsto> 0], [((), 0)]) =
     Next ([(- 2, (), [(), ()], - 2)], [() \<mapsto> - 1], [((), 0), ((), - 1)]) \<and>
   astar_iteration negative_loop nullHeuristic ([(- 1, (), [()], - 1)], [() \<mapsto> 0], [((), 0)]) =
     Next ([(- 2, (), [(), ()], - 2)], [() \<mapsto> - 1], [((), 0), ((), - 1)]) \<and>
   loop_state (ucs_iteration negative_loop) 1 (ucs_init negative_loop) =
     Some ([(- 1, (), [()], - 1)], [() \<mapsto> 0], [((), 0)]) \<and>
   loop_state (astar_iteration negative_loop nullHeuristic) 1
       (astar_init negative_loop nullHeuristic) =
     Some ([(- 1, (), [()], - 1)], [() \<mapsto> 0], [((), 0)]) \<and>
   (\<exists>cur path g rest.
      pq_pop [(- 1, (), [()], - 1 :: int)] = Inr ((cur, path :: unit list, g), rest) \<and>
      [((), 0), ((), - 1)] = [((), 0)] @ [(cur, g)] \<and>
      [() \<mapsto> - 1] = [() \<mapsto> 0](cur \<mapsto> g) \<and>
      (\<forall>recorded. [() \<mapsto> 0] cur = Some recorded \<longrightarrow> g < recorded)) \<and>
   [() \<mapsto> (0::int)] = map_of (rev [((), 0)]) \<and> relaxing (rev [((), 0::int)])"
proof -
  have a: "astar_iteration negative_loop nullHeuristic
        ([(- 1, (), [()], - 1)], [() \<mapsto> 0], [((), 0)]) =
      Next ([(- 2, (), [(), ()], - 2)], [() \<mapsto> - 1], [((), 0), ((), - 1)])"
    by (simp add: astar_iteration_def pq_push_def pq_isEmpty_def pq_pop_def negative_loop_def
        cheaper_def nullHeuristic_def Let_def)
  have l: "loop_state (astar_iteration negative_loop nullHeuristic) 1
       (astar_init negative_loop nullHeuristic) =
     Some ([(- 1, (), [()], - 1)], [() \<mapsto> 0], [((), 0)])"
    by (simp add: astar_iteration_def astar_init_def pq_push_def pq_isEmpty_def pq_pop_def
        negative_loop_def cheaper_def nullHeuristic_def Let_def)
  note u = a[folded ucs_iteration_eq] l[folded ucs_iteration_eq ucs_init_eq]
  from monotonic_relaxation[of negative_loop "[(- 1, (), [()], - 1)]" "[() \<mapsto> 0]" "[((), 0)]"
      "[(- 2, (), [(), ()], - 2)]" "[() \<mapsto> - 1]" "[((), 0), ((), - 1)]" nullHeuristic 1] a l u
  show ?thesis by auto
qed

text \<open>
  Claim C7. When the start state satisfies \<^verbatim>\<open>isGoalState\<close>, each of the four searches
  returns the empty action sequence, no fault, and has called \<^verbatim>\<open>getSuccessors\<close> on no
  state.
\<close>

theorem start_is_goal:
  assumes "isGoalState problem (getStartState problem)"
  shows "dfs_run problem = Some (Return [], []) \<and> bfs_run problem = Some (Return [], []) \<and>
         ucs_run problem = Some (Return [], []) \<and>
         astar_run problem heuristic = Some (Return [], []) \<and>
         depthFirstSearch problem = Some (Return []) \<and>
         breadthFirstSearch problem = Some (Return []) \<and>
         uniformCostSearch problem = Some (Return []) \<and>
         aStarSearch problem heuristic = Some (Return [])"
proof -
  have d: "dfs_run problem = Some (Return [], [])"
    unfolding dfs_run_def
    by (subst while_loop.simps)
      (simp add: dfs_iteration_def dfs_init_def stack_push_def stack_isEmpty_def stack_pop_def assms)
  have b: "bfs_run problem = Some (Return [], [])"
    unfolding bfs_run_def
    by (subst while_loop.simps)
      (simp add: bfs_iteration_def bfs_init_def queue_push_def queue_isEmpty_def queue_pop_def assms)
  have a: "astar_run problem h = Some (Return [], [])" for h
    unfolding astar_run_def
    by (subst while_loop.simps)
      (simp add: astar_iteration_def astar_init_def pq_push_def pq_isEmpty_def pq_pop_def assms Let_def)
  from d b a[of heuristic] a[of nullHeuristic] show ?thesis
    by (simp add: depthFirstSearch_def breadthFirstSearch_def uniformCostSearch_def
        aStarSearch_def ucs_run_eq)
qed

text \<open>
  On \<open>at_goal\<close> every search returns at once.
\<close>

theorem start_is_goal_witness:
  "isGoalState at_goal (getStartState at_goal) \<and>
   dfs_run at_goal = Some (Return [], []) \<and> bfs_run at_goal = Some (Return [], []) \<and>
   ucs_run at_goal = Some (Return [], []) \<and>
   astar_run at_goal demo_heuristic = Some (Return [], []) \<and>
   depthFirstSearch at_goal = Some (Return []) \<and> breadthFirstSearch at_goal = Some (Return []) \<and>
   uniformCostSearch at_goal = Some (Return []) \<and>
   aStarSearch at_goal demo_heuristic = Some (Return [])"
proof -
  have g: "isGoalState at_goal (getStartState at_goal)" by (simp add: at_goal_def demo_def)
  from start_is_goal[OF g, of demo_heuristic] g show ?thesis by simp
qed

text \<open>
  Claim C8, amended. No search ever raises a fault of its own. For a problem with a
  finite reachable state space in which no reachable state is a goal,
  \<^verbatim>\<open>depthFirstSearch\<close> and \<^verbatim>\<open>breadthFirstSearch\<close> exhaust their frontier and return the empty
  action sequence; \<^verbatim>\<open>uniformCostSearch\<close> and \<^verbatim>\<open>aStarSearch\<close> do so when, in addition, the
  step costs are non-negative.
\<close>

theorem unreachable_goal_returns_empty:
  "(depthFirstSearch problem \<noteq> Some (Raise e) \<and> breadthFirstSearch problem \<noteq> Some (Raise e) \<and>
    uniformCostSearch problem \<noteq> Some (Raise e) \<and> aStarSearch problem heuristic \<noteq> Some (Raise e)) \<and>
   (finite (reachable problem) \<and> \<not> goal_reachable problem \<longrightarrow>
      depthFirstSearch problem = Some (Return []) \<and>
      (\<exists>n vis ex. loop_state (dfs_iteration problem) n (dfs_init problem) = Some ([], vis, ex)) \<and>
      breadthFirstSearch problem = Some (Return []) \<and>
      (\<exists>n vis ex. loop_state (bfs_iteration problem) n (bfs_init problem) = Some ([], vis, ex)) \<and>
      (nonneg_costs problem \<longrightarrow>
         uniformCostSearch problem = Some (Return []) \<and>
         (\<exists>n vis ex. loop_state (ucs_iteration problem) n (ucs_init problem) = Some ([], vis, ex)) \<and>
         aStarSearch problem heuristic = Some (Return []) \<and>
         (\<exists>n vis ex. loop_state (astar_iteration problem heuristic) n
                        (astar_init problem heuristic) = Some ([], vis, ex))))"
proof (intro conjI impI)
  assume h: "finite (reachable problem) \<and> \<not> goal_reachable problem"
  from dfs_no_goal h
  show "depthFirstSearch problem = Some (Return [])"
    "\<exists>n vis ex. loop_state (dfs_iteration problem) n (dfs_init problem) = Some ([], vis, ex)"
    unfolding depthFirstSearch_def by fastforce+
  from bfs_no_goal h
  show "breadthFirstSearch problem = Some (Return [])"
    "\<exists>n vis ex. loop_state (bfs_iteration problem) n (bfs_init problem) = Some ([], vis, ex)"
    unfolding breadthFirstSearch_def by fastforce+
  assume nn: "nonneg_costs problem"
  from astar_no_goal[of problem nullHeuristic] h nn
  show "uniformCostSearch problem = Some (Return [])"
    "\<exists>n vis ex. loop_state (ucs_iteration problem) n (ucs_init problem) = Some ([], vis, ex)"
    unfolding uniformCostSearch_def ucs_run_eq ucs_iteration_eq ucs_init_eq by fastforce+
  from astar_no_goal[of problem heuristic] h nn
  show "aStarSearch problem heuristic = Some (Return [])"
    "\<exists>n vis ex. loop_state (astar_iteration problem heuristic) n
                        (astar_init problem heuristic) = Some ([], vis, ex)"
    unfolding aStarSearch_def by fastforce+
qed (simp_all add: dfs_never_raises bfs_never_raises astar_never_raises ucs_astar)

text \<open>
  On \<open>no_goal\<close>, whose graph has a cycle, every search exhausts its frontier.
\<close>

theorem unreachable_goal_returns_empty_witness:
  "finite (reachable no_goal) \<and> \<not> goal_reachable no_goal \<and> nonneg_costs no_goal \<and>
   depthFirstSearch no_goal = Some (Return []) \<and> breadthFirstSearch no_goal = Some (Return []) \<and>
   uniformCostSearch no_goal = Some (Return []) \<and>
   aStarSearch no_goal demo_heuristic = Some (Return [])"
  using unreachable_goal_returns_empty[of no_goal IndexError demo_heuristic]
    finite_node_set[of "reachable no_goal"] no_goal_unreachable no_goal_nonneg
  by simp

text \<open>
  Claim C8 as stated fails: \<open>negative_loop\<close> has one reachable state and no goal, and on
  it neither \<^verbatim>\<open>uniformCostSearch\<close> nor \<^verbatim>\<open>aStarSearch\<close> ever returns.
\<close>

theorem negative_cycle_counterexample:
  "finite (reachable negative_loop) \<and> \<not> goal_reachable negative_loop \<and>
   uniformCostSearch negative_loop = None \<and> aStarSearch negative_loop nullHeuristic = None"
  using negative_loop_diverges
  by (simp add: goal_reachable_def negative_loop_def uniformCostSearch_def aStarSearch_def
      ucs_run_eq)

text \<open>
  Claim C9. For a problem with a finite reachable state space and non-negative step
  costs, each of the four searches returns, whatever cycles the graph has.
\<close>

theorem searches_terminate:
  assumes "finite (reachable problem)" and "nonneg_costs problem"
  shows "(\<exists>r. depthFirstSearch problem = Some r) \<and> (\<exists>r. breadthFirstSearch problem = Some r) \<and>
         (\<exists>r. uniformCostSearch problem = Some r) \<and> (\<exists>r. aStarSearch problem heuristic = Some r)"
  using dfs_run_total[OF assms(1)] bfs_run_total[OF assms(1)]
    astar_run_total[OF assms, of nullHeuristic] astar_run_total[OF assms, of heuristic]
  by (auto simp: depthFirstSearch_def breadthFirstSearch_def uniformCostSearch_def
      aStarSearch_def ucs_run_eq)

text \<open>
  \<open>demo\<close> has the cycle \<open>Src \<rightarrow> Via \<rightarrow> Src\<close>.
\<close>

theorem searches_terminate_witness:
  "finite (reachable demo) \<and> nonneg_costs demo \<and>
   (\<exists>r. depthFirstSearch demo = Some r) \<and> (\<exists>r. breadthFirstSearch demo = Some r) \<and>
   (\<exists>r. uniformCostSearch demo = Some r) \<and> (\<exists>r. aStarSearch demo demo_heuristic = Some r)"
  using searches_terminate[OF finite_node_set demo_nonneg, of demo_heuristic]
    finite_node_set[of "reachable demo"] demo_nonneg
  by simp

text \<open>
  Claim C10. Two problems with the same start state, the same goal test and the same
  successor triples up to their step costs get the same result from
  \<^verbatim>\<open>depthFirstSearch\<close> and from \<^verbatim>\<open>breadthFirstSearch\<close>.
\<close>

theorem uninformed_ignore_costs:
  assumes "getStartState problem' = getStartState problem"
    and "isGoalState problem' = isGoalState problem"
    and "\<forall>s. map (\<lambda>(n, a, w). (n, a)) (getSuccessors problem' s) =
             map (\<lambda>(n, a, w). (n, a)) (getSuccessors problem s)"
  shows "depthFirstSearch problem' = depthFirstSearch problem \<and>
         breadthFirstSearch problem' = breadthFirstSearch problem"
proof -
  have eq: "map (\<lambda>(n, a, w). (n, a)) (getSuccessors problem' s) =
            map (\<lambda>(n, a, w). (n, a)) (getSuccessors problem s)" for s
    using assms(3) by blast
  have "dfs_iteration problem' = dfs_iteration problem"
    unfolding dfs_iteration_def fold_stack_push_costs eq assms(2) by (rule refl)
  moreover have "bfs_iteration problem' = bfs_iteration problem"
    unfolding bfs_iteration_def fold_queue_push_costs eq assms(2) by (rule refl)
  ultimately show ?thesis
    using assms(1)
    by (simp add: depthFirstSearch_def breadthFirstSearch_def dfs_run_def bfs_run_def
        dfs_init_def bfs_init_def)
qed

text \<open>
  \<open>pricey\<close> and \<open>demo\<close> differ in every step cost.
\<close>

theorem uninformed_ignore_costs_witness:
  "getStartState pricey = getStartState demo \<and> isGoalState pricey = isGoalState demo \<and>
   (\<forall>s. map (\<lambda>(n, a, w). (n, a)) (getSuccessors pricey s) =
        map (\<lambda>(n, a, w). (n, a)) (getSuccessors demo s)) \<and>
   getSuccessors pricey Src \<noteq> getSuccessors demo Src \<and>
   depthFirstSearch pricey = depthFirstSearch demo \<and>
   breadthFirstSearch pricey = breadthFirstSearch demo"
proof -
  have s: "getStartState pricey = getStartState demo" by (simp add: pricey_def)
  have g: "isGoalState pricey = isGoalState demo" by (simp add: pricey_def)
  have m: "\<forall>s. map (\<lambda>(n, a, w). (n, a)) (getSuccessors pricey s) =
        map (\<lambda>(n, a, w). (n, a)) (getSuccessors demo s)"
  proof
    fix s show "map (\<lambda>(n, a, w). (n, a)) (getSuccessors pricey s) =
        map (\<lambda>(n, a, w). (n, a)) (getSuccessors demo s)"
      by (cases s) (simp_all add: pricey_def demo_def)
  qed
  have d: "getSuccessors pricey Src \<noteq> getSuccessors demo Src" by (simp add: pricey_def demo_def)
  from uninformed_ignore_costs[OF s g m] s g m d show ?thesis by blast
qed

end
